theory Spec2Isabelle
  imports Main "HOL-Library.Sublist" "HOL-Library.Char_ord" "HOL-Library.List_Lexorder"
begin

section \<open>Python strings\<close>

text \<open>
  A Python \<^verbatim>\<open>str\<close> is modelled as a \<^typ>\<open>string\<close>, one \<^typ>\<open>char\<close> per character.
  The functions of this section are the built-in string operations the crawler and the
  offline merge scripts call.
\<close>

text \<open>\<^verbatim>\<open>sub in s\<close>: \<^verbatim>\<open>sub\<close> occurs somewhere in \<^verbatim>\<open>s\<close>.\<close>

fun str_in :: "string \<Rightarrow> string \<Rightarrow> bool" where
  "str_in sub [] = (sub = [])"
| "str_in sub (c # cs) = (prefix sub (c # cs) \<or> str_in sub cs)"

text \<open>\<^verbatim>\<open>s.startswith(p)\<close>.\<close>

definition startswith :: "string \<Rightarrow> string \<Rightarrow> bool" where
  "startswith s p = prefix p s"

text \<open>\<^verbatim>\<open>s.split(c)\<close> for a one-character separator: empty pieces are kept.\<close>

primrec str_split :: "char \<Rightarrow> string \<Rightarrow> string list" where
  "str_split c [] = [[]]"
| "str_split c (x # xs) =
     (if x = c then [] # str_split c xs
      else (case str_split c xs of [] \<Rightarrow> [[x]] | p # ps \<Rightarrow> (x # p) # ps))"

text \<open>\<^verbatim>\<open>sep.join(parts)\<close>.\<close>

fun str_join :: "string \<Rightarrow> string list \<Rightarrow> string" where
  "str_join sep [] = []"
| "str_join sep [p] = p"
| "str_join sep (p # q # ps) = p @ sep @ str_join sep (q # ps)"

text \<open>\<^verbatim>\<open>xs[:n]\<close> for any integer \<^verbatim>\<open>n\<close>: a negative bound counts from the end.\<close>

definition slice_to :: "'a list \<Rightarrow> int \<Rightarrow> 'a list" where
  "slice_to xs n = (if 0 \<le> n then take (nat n) xs else take (nat (int (length xs) + n)) xs)"

text \<open>\<^verbatim>\<open>s.partition(c)\<close> restricted to its first and last component.\<close>

definition before :: "char \<Rightarrow> string \<Rightarrow> string" where
  "before c s = takeWhile (\<lambda>x. x \<noteq> c) s"

definition after :: "char \<Rightarrow> string \<Rightarrow> string" where
  "after c s = drop 1 (dropWhile (\<lambda>x. x \<noteq> c) s)"

text \<open>\<^verbatim>\<open>str(n)\<close> for an integer, as an f-string renders it.\<close>

definition digit_char :: "nat \<Rightarrow> char" where
  "digit_char d = ''0123456789'' ! d"

fun str_nat :: "nat \<Rightarrow> string" where
  "str_nat n = (if n < 10 then [digit_char n] else str_nat (n div 10) @ [digit_char (n mod 10)])"

definition str_int :: "int \<Rightarrow> string" where
  "str_int i = (if i < 0 then CHR ''-'' # str_nat (nat (- i)) else str_nat (nat i))"

text \<open>\<^verbatim>\<open>s.lower()\<close> on ASCII letters.\<close>

definition lower_char :: "char \<Rightarrow> char" where
  "lower_char c =
     (case map_of (zip ''ABCDEFGHIJKLMNOPQRSTUVWXYZ'' ''abcdefghijklmnopqrstuvwxyz'') c of
        None \<Rightarrow> c | Some l \<Rightarrow> l)"

definition lower :: "string \<Rightarrow> string" where
  "lower s = map lower_char s"


section \<open>urllib.parse\<close>

text \<open>
  The crawler and the merge scripts identify pages through \<^verbatim>\<open>urlparse\<close> and
  \<^verbatim>\<open>urlunparse\<close> of Python's standard library. The definitions below follow
  CPython 3.12's \<^verbatim>\<open>urllib/parse.py\<close> function by function. Two library checks are
  not part of the model: the \<^verbatim>\<open>ValueError\<close> raised for a malformed bracketed
  (IPv6) host, and the one raised for a non-ASCII host that changes under NFKC
  normalisation.
\<close>

record parse_result =
  scheme :: string
  netloc :: string
  path :: string
  params :: string
  query :: string
  fragment :: string

definition scheme_chars :: string where
  "scheme_chars =
     ''abcdefghijklmnopqrstuvwxyz'' @ ''ABCDEFGHIJKLMNOPQRSTUVWXYZ'' @ ''0123456789'' @ ''+-.''"

definition ascii_letters :: string where
  "ascii_letters = ''abcdefghijklmnopqrstuvwxyz'' @ ''ABCDEFGHIJKLMNOPQRSTUVWXYZ''"

definition uses_netloc :: "string list" where
  "uses_netloc = ['''', ''ftp'', ''http'', ''gopher'', ''nntp'', ''telnet'',
     ''imap'', ''wais'', ''file'', ''mms'', ''https'', ''shttp'',
     ''snews'', ''prospero'', ''rtsp'', ''rtsps'', ''rtspu'', ''rsync'',
     ''svn'', ''svn+ssh'', ''sftp'', ''nfs'', ''git'', ''git+ssh'',
     ''ws'', ''wss'', ''itms-services'']"

definition uses_params :: "string list" where
  "uses_params = ['''', ''ftp'', ''hdl'', ''prospero'', ''http'', ''imap'',
     ''https'', ''shttp'', ''rtsp'', ''rtsps'', ''rtspu'', ''sip'',
     ''sips'', ''mms'', ''sftp'', ''tel'']"

text \<open>
  \<^verbatim>\<open>url.lstrip(_WHATWG_C0_CONTROL_OR_SPACE)\<close> followed by the removal of tab, carriage
  return and line feed.
\<close>

definition c0_control_or_space :: "char \<Rightarrow> bool" where
  "c0_control_or_space c = (of_char c \<le> (32::nat))"

definition unsafe_url_byte :: "char \<Rightarrow> bool" where
  "unsafe_url_byte c = (of_char c \<in> {9::nat, 10, 13})"

definition clean_url :: "string \<Rightarrow> string" where
  "clean_url url = filter (\<lambda>c. \<not> unsafe_url_byte c) (dropWhile c0_control_or_space url)"

text \<open>
  The scheme of \<^verbatim>\<open>urlsplit\<close>: the text before the first colon, when it starts with a
  letter and holds scheme characters only. The result is the scheme and the rest.
\<close>

definition split_scheme :: "string \<Rightarrow> string \<times> string" where
  "split_scheme url =
     (if CHR '':'' \<in> set url \<and> before CHR '':'' url \<noteq> [] \<and> hd url \<in> set ascii_letters
         \<and> list_all (\<lambda>c. c \<in> set scheme_chars) (before CHR '':'' url)
      then (lower (before CHR '':'' url), after CHR '':'' url)
      else ([], url))"

text \<open>\<^verbatim>\<open>_splitnetloc(url, 2)\<close>: the authority ends at the first of \<^verbatim>\<open>/\<close>, \<^verbatim>\<open>?\<close>, \<^verbatim>\<open>#\<close>.\<close>

definition netloc_char :: "char \<Rightarrow> bool" where
  "netloc_char c = (c \<noteq> CHR ''/'' \<and> c \<noteq> CHR ''?'' \<and> c \<noteq> CHR ''#'')"

definition splitnetloc :: "string \<Rightarrow> string \<times> string" where
  "splitnetloc url = (takeWhile netloc_char (drop 2 url), dropWhile netloc_char (drop 2 url))"

text \<open>\<^verbatim>\<open>urlsplit(url)\<close> as the tuple (scheme, netloc, path, query, fragment).\<close>

definition urlsplit :: "string \<Rightarrow> string \<times> string \<times> string \<times> string \<times> string" where
  "urlsplit url0 =
     (let (sch, url1) = split_scheme (clean_url url0);
          (loc, url2) = (if take 2 url1 = ''//'' then splitnetloc url1 else ([], url1));
          (url3, frag) = (if CHR ''#'' \<in> set url2
                          then (before CHR ''#'' url2, after CHR ''#'' url2) else (url2, []));
          (url4, qry) = (if CHR ''?'' \<in> set url3
                         then (before CHR ''?'' url3, after CHR ''?'' url3) else (url3, []))
      in (sch, loc, url4, qry, frag))"

text \<open>
  \<^verbatim>\<open>_splitparams(url)\<close>: the parameters start at the first semicolon of the last path
  segment.
\<close>

definition splitparams :: "string \<Rightarrow> string \<times> string" where
  "splitparams url =
     (if CHR ''/'' \<in> set url then
        (let last_seg = rev (before CHR ''/'' (rev url));
             front = take (length url - length last_seg) url
         in if CHR '';'' \<in> set last_seg
            then (front @ before CHR '';'' last_seg, after CHR '';'' last_seg)
            else (url, []))
      else (before CHR '';'' url, after CHR '';'' url))"

definition urlparse :: "string \<Rightarrow> parse_result" where
  "urlparse url =
     (let (sch, loc, p, qry, frag) = urlsplit url;
          (p', prm) = (if sch \<in> set uses_params \<and> CHR '';'' \<in> set p
                       then splitparams p else (p, []))
      in \<lparr>scheme = sch, netloc = loc, path = p', params = prm, query = qry, fragment = frag\<rparr>)"

definition urlunsplit :: "string \<times> string \<times> string \<times> string \<times> string \<Rightarrow> string" where
  "urlunsplit c =
     (case c of (sch, loc, url, qry, frag) \<Rightarrow>
        (let url1 = (if loc \<noteq> [] \<or> (sch \<noteq> [] \<and> sch \<in> set uses_netloc \<and> take 2 url \<noteq> ''//'')
                     then ''//'' @ loc @ (if url \<noteq> [] \<and> take 1 url \<noteq> ''/'' then ''/'' @ url else url)
                     else url);
             url2 = (if sch \<noteq> [] then sch @ '':'' @ url1 else url1);
             url3 = (if qry \<noteq> [] then url2 @ ''?'' @ qry else url2)
         in if frag \<noteq> [] then url3 @ ''#'' @ frag else url3))"

definition urlunparse :: "string \<times> string \<times> string \<times> string \<times> string \<times> string \<Rightarrow> string" where
  "urlunparse c =
     (case c of (sch, loc, url, prm, qry, frag) \<Rightarrow>
        urlunsplit (sch, loc, (if prm \<noteq> [] then url @ '';'' @ prm else url), qry, frag))"


section \<open>URL normalisation\<close>

text \<open>
  \<^verbatim>\<open>MaxrollSpider._normalize_url\<close> (maxroll.py): every component but the fragment is
  put back together.
\<close>

definition spider_normalize_url :: "string \<Rightarrow> string" where
  "spider_normalize_url url =
     (let parsed = urlparse url
      in urlunparse (scheme parsed, netloc parsed, path parsed, params parsed, query parsed, []))"

text \<open>
  \<^verbatim>\<open>normalize_url\<close> (dedupe.py, and the same function in dedupe_simple.py and
  dedupe_compact.py): scheme, host and path only; the docstring reads ``removing
  fragments and query parameters''.
\<close>

definition normalize_url :: "string \<Rightarrow> string" where
  "normalize_url url = (let parsed = urlparse url in scheme parsed @ ''://'' @ netloc parsed @ path parsed)"


section \<open>Page records\<close>

text \<open>
  A page record is the dictionary \<^verbatim>\<open>{'url', 'title', 'content', 'metadata'}\<close> that
  \<^verbatim>\<open>parse\<close> builds and that the merge scripts read back from JSON. A key that may be
  missing is an \<^typ>\<open>'a option\<close> (\<^term>\<open>None\<close>: the key is absent; for the title also
  Python's \<^verbatim>\<open>None\<close>). The keys no modelled function reads (\<^verbatim>\<open>metadata\<close>,
  \<^verbatim>\<open>structured_data\<close>) are left out. The field \<open>c_title\<close> is a \<^verbatim>\<open>'title'\<close> key inside
  the \<^verbatim>\<open>content\<close> dictionary: \<^verbatim>\<open>get_content_hash\<close> looks for it there, while
  \<^verbatim>\<open>parse\<close> stores the title beside \<^verbatim>\<open>content\<close>, in \<open>item_title\<close>.
\<close>

record heading =
  h_level :: int
  h_text :: string

record link =
  l_url :: string
  l_text :: string

record image =
  i_src :: string
  i_alt :: string

record content =
  c_headings :: "heading list option"
  c_paragraphs :: "string list option"
  c_lists :: "string list list option"
  c_links :: "link list option"
  c_images :: "image list option"
  c_tables :: "string list list list option"
  c_code_blocks :: "string list option"
  c_title :: "string option"

record item =
  item_url :: "string option"
  item_title :: "string option"
  item_content :: "content option"

text \<open>The empty dictionary \<^verbatim>\<open>{}\<close> that \<^verbatim>\<open>item.get('content', {})\<close> falls back to.\<close>

definition empty_content :: content where
  "empty_content = \<lparr>c_headings = None, c_paragraphs = None, c_lists = None, c_links = None,
     c_images = None, c_tables = None, c_code_blocks = None, c_title = None\<rparr>"

definition get_content :: "item \<Rightarrow> content" where
  "get_content it = (case item_content it of None \<Rightarrow> empty_content | Some c \<Rightarrow> c)"

text \<open>\<^verbatim>\<open>item.get('url', '')\<close>.\<close>

definition get_url :: "item \<Rightarrow> string" where
  "get_url it = (case item_url it of None \<Rightarrow> [] | Some u \<Rightarrow> u)"

text \<open>\<^verbatim>\<open>len(content.get(key, []))\<close>.\<close>

definition len_of :: "'a list option \<Rightarrow> int" where
  "len_of v = (case v of None \<Rightarrow> 0 | Some xs \<Rightarrow> int (length xs))"


section \<open>dedupe.py: the deduplication script\<close>

datatype py_error = ValueError | ZeroDivisionError

definition newline :: string where
  "newline = [CHR 0x0A]"

text \<open>
  \<^verbatim>\<open>get_content_hash\<close>: the string \<^verbatim>\<open>content_str\<close> it builds, and its MD5 digest. The
  hash function of \<^verbatim>\<open>hashlib\<close> is a parameter \<open>md5\<close> of the model.
\<close>

definition content_str :: "content \<Rightarrow> string" where
  "content_str c =
     (let s0 = [];
          s1 = (case c_headings c of None \<Rightarrow> s0
                | Some hs \<Rightarrow>
                    foldl (\<lambda>s h. s @ ''h'' @ str_int (h_level h) @ '':'' @ h_text h @ newline) s0 hs);
          s2 = (case c_paragraphs c of None \<Rightarrow> s1
                | Some ps \<Rightarrow> foldl (\<lambda>s para. s @ take 100 para @ newline) s1 ps);
          s3 = (case c_title c of None \<Rightarrow> s2 | Some t \<Rightarrow> s2 @ ''title:'' @ t @ newline)
      in s3)"

definition get_content_hash :: "(string \<Rightarrow> string) \<Rightarrow> content \<Rightarrow> string" where
  "get_content_hash md5 c = md5 (content_str c)"

text \<open>\<^verbatim>\<open>content_score\<close>, the local function of \<^verbatim>\<open>deduplicate_data\<close>.\<close>

definition content_score :: "item \<Rightarrow> int" where
  "content_score it =
     (let c = get_content it
      in 0 + len_of (c_headings c) * 2 + len_of (c_paragraphs c) * 3 + len_of (c_lists c) * 2
           + len_of (c_links c) + len_of (c_images c) + len_of (c_tables c) * 5)"

text \<open>
  \<^verbatim>\<open>max(items, key=...)\<close>: the running maximum is replaced only by a strictly greater
  key, so the first maximal element wins; on an empty list Python raises
  \<^verbatim>\<open>ValueError\<close>.
\<close>

fun max_from :: "('a \<Rightarrow> int) \<Rightarrow> 'a \<Rightarrow> 'a list \<Rightarrow> 'a" where
  "max_from key best [] = best"
| "max_from key best (x # xs) = max_from key (if key best < key x then x else best) xs"

definition py_max :: "('a \<Rightarrow> int) \<Rightarrow> 'a list \<Rightarrow> py_error + 'a" where
  "py_max key xs = (case xs of [] \<Rightarrow> Inl ValueError | x # xs' \<Rightarrow> Inr (max_from key x xs'))"

text \<open>
  \<^verbatim>\<open>url_groups\<close> is a \<^verbatim>\<open>defaultdict(list)\<close>; a Python dictionary iterates in the order
  its keys were first inserted, so it is an association list here.
  \<^verbatim>\<open>url_groups[k].append(v)\<close>:
\<close>

fun group_append :: "(string \<times> item list) list \<Rightarrow> string \<Rightarrow> item \<Rightarrow> (string \<times> item list) list" where
  "group_append [] k v = [(k, [v])]"
| "group_append ((k', vs) # g) k v =
     (if k' = k then (k', vs @ [v]) # g else (k', vs) # group_append g k v)"

definition url_groups :: "item list \<Rightarrow> (string \<times> item list) list" where
  "url_groups data =
     foldl (\<lambda>g it. case item_url it of None \<Rightarrow> g
                     | Some u \<Rightarrow> group_append g (normalize_url u) it) [] data"

text \<open>
  One round of the loop over \<^verbatim>\<open>url_groups.items()\<close>. The loop state is the pair of
  \<^verbatim>\<open>seen_content_hashes\<close> and \<^verbatim>\<open>deduplicated\<close>.
\<close>

definition process_group ::
  "(string \<Rightarrow> string) \<Rightarrow> string set \<times> item list \<Rightarrow> string \<times> item list
     \<Rightarrow> py_error + string set \<times> item list" where
  "process_group md5 st grp =
     (case st of (seen_content_hashes, deduplicated) \<Rightarrow>
      case grp of (normalized_url, items) \<Rightarrow>
        if length items = 1 then
          (let it = items ! 0;
               content_hash = get_content_hash md5 (get_content it)
           in if content_hash \<notin> seen_content_hashes
              then Inr (insert content_hash seen_content_hashes, deduplicated @ [it])
              else Inr (seen_content_hashes, deduplicated))
        else
          (case py_max content_score items of
             Inl e \<Rightarrow> Inl e
           | Inr best_item \<Rightarrow>
               (let content_hash = get_content_hash md5 (get_content best_item)
                in if content_hash \<notin> seen_content_hashes
                   then Inr (insert content_hash seen_content_hashes, deduplicated @ [best_item])
                   else Inr (seen_content_hashes, deduplicated))))"

fun process_groups ::
  "(string \<Rightarrow> string) \<Rightarrow> string set \<times> item list \<Rightarrow> (string \<times> item list) list
     \<Rightarrow> py_error + string set \<times> item list" where
  "process_groups md5 st [] = Inr st"
| "process_groups md5 st (grp # grps) =
     (case process_group md5 st grp of
        Inl e \<Rightarrow> Inl e
      | Inr st' \<Rightarrow> process_groups md5 st' grps)"

text \<open>
  \<^verbatim>\<open>deduplicate_data(data, output_file, verbose)\<close>, as the list it returns. With
  \<^verbatim>\<open>verbose\<close> set (the default) the summary prints a percentage of \<^verbatim>\<open>len(data)\<close>, a
  division that raises \<^verbatim>\<open>ZeroDivisionError\<close> on an empty input.
\<close>

definition deduplicate_data :: "(string \<Rightarrow> string) \<Rightarrow> bool \<Rightarrow> item list \<Rightarrow> py_error + item list" where
  "deduplicate_data md5 verbose data =
     (case process_groups md5 ({}, []) (url_groups data) of
        Inl e \<Rightarrow> Inl e
      | Inr (seen_content_hashes, deduplicated) \<Rightarrow>
          if verbose \<and> data = [] then Inl ZeroDivisionError else Inr deduplicated)"


section \<open>maxroll.py: the spider\<close>

record spider =
  start_urls :: "string list"
  filter_depth :: int
  max_depth :: "int option"
  max_pages :: int
  path_filter :: "string option"
  pages_processed :: int
  pages_filtered :: int
  depth_exceeded :: int
  estimated_total_pages :: int
  current_page_url :: string
  urls_found :: "string set"
  urls_scraped :: "string set"
  duplicate_urls_skipped :: int
  collected_data :: "item list"

text \<open>
  \<^verbatim>\<open>[part for part in parsed.path.split('/') if part]\<close>, the non-empty path segments.
\<close>

definition path_parts :: "string \<Rightarrow> string list" where
  "path_parts url = filter (\<lambda>part. part \<noteq> []) (str_split CHR ''/'' (path (urlparse url)))"

text \<open>\<^verbatim>\<open>_get_path_filter\<close>; \<open>fd\<close> is \<^verbatim>\<open>self.filter_depth\<close>.\<close>

definition get_path_filter :: "int \<Rightarrow> string \<Rightarrow> string option" where
  "get_path_filter fd url =
     (let parts = path_parts url
      in if fd = 0 then None
         else if fd = 1 then (case parts of [] \<Rightarrow> None | p # _ \<Rightarrow> Some p)
         else if fd \<le> int (length parts) then Some (str_join ''/'' (slice_to parts fd))
         else (if parts \<noteq> [] then Some (str_join ''/'' parts) else None))"

text \<open>
  \<^verbatim>\<open>_matches_filter\<close>; \<open>pf\<close> is \<^verbatim>\<open>self.path_filter\<close> and \<open>fd\<close> is
  \<^verbatim>\<open>self.filter_depth\<close>. The result is the truth value of what the method returns (for
  depth 1 it may return the empty list, which is false).
\<close>

definition matches_filter :: "string option \<Rightarrow> int \<Rightarrow> string \<Rightarrow> bool" where
  "matches_filter pf fd url =
     (case pf of
        None \<Rightarrow> True
      | Some rule \<Rightarrow>
          if rule = [] \<or> fd = 0 then True
          else
            (let parts = path_parts url
             in if fd = 1 then (case parts of [] \<Rightarrow> False | p # _ \<Rightarrow> p = rule)
                else if fd \<le> int (length parts) then str_join ''/'' (slice_to parts fd) = rule
                else (let url_path = str_join ''/'' parts
                      in startswith rule (url_path @ ''/'') \<or> url_path = rule)))"

text \<open>
  The condition both \<^verbatim>\<open>_estimate_total_pages\<close> and the link loop of \<^verbatim>\<open>parse\<close> put on
  a resolved link before anything else is done with it.
\<close>

definition skip_list :: "string list" where
  "skip_list = [''#'', ''javascript:'', ''mailto:'', ''.pdf'', ''.jpg'', ''.png'', ''.gif'',
     ''.webp'', ''.svg'']"

definition followable :: "string \<Rightarrow> bool" where
  "followable full_url =
     (startswith full_url ''https://maxroll.gg''
      \<and> \<not> list_ex (\<lambda>skip. str_in skip full_url) skip_list)"

text \<open>
  \<^verbatim>\<open>__init__\<close>. The arguments are the values Scrapy passes on (\<^term>\<open>None\<close> where the
  caller passes \<^verbatim>\<open>None\<close>); the integer arguments are taken after \<^verbatim>\<open>int(...)\<close>.
\<close>

definition default_start_urls :: "string list" where
  "default_start_urls = [''https://maxroll.gg/d4/getting-started/first-steps-in-diablo-4'']"

definition spider_init :: "string option \<Rightarrow> int option \<Rightarrow> int option \<Rightarrow> int option \<Rightarrow> spider" where
  "spider_init start_urls_arg filter_depth_arg max_depth_arg max_pages_arg =
     (let su = (case start_urls_arg of
                  None \<Rightarrow> default_start_urls
                | Some a \<Rightarrow> if a = [] then default_start_urls else str_split CHR '','' a);
          fd = (case filter_depth_arg of None \<Rightarrow> 1 | Some d \<Rightarrow> d);
          mp = (case max_pages_arg of None \<Rightarrow> 10000 | Some m \<Rightarrow> m);
          pf = (case su of [] \<Rightarrow> None
                | u # _ \<Rightarrow> if 0 < fd then get_path_filter fd u else None);
          normalized = map spider_normalize_url su
      in \<lparr>start_urls = su, filter_depth = fd, max_depth = max_depth_arg, max_pages = mp,
          path_filter = pf, pages_processed = 0, pages_filtered = 0, depth_exceeded = 0,
          estimated_total_pages = 0, current_page_url = [], urls_found = set normalized,
          urls_scraped = set normalized, duplicate_urls_skipped = 0, collected_data = []\<rparr>)"

text \<open>
  A response as \<^verbatim>\<open>parse\<close> sees it. CSS selection and \<^verbatim>\<open>urljoin\<close> belong to Scrapy and
  the standard library, so the response carries what they return. \<open>r_anchors\<close> has one
  entry for every \<^verbatim>\<open>a[href]\<close> element with a non-empty \<^verbatim>\<open>href\<close>, in document order:
  the resolved \<^verbatim>\<open>full_url\<close>, or the exception \<^verbatim>\<open>urljoin\<close> raises on that \<^verbatim>\<open>href\<close>
  (a \<^verbatim>\<open>ValueError\<close> on \<^verbatim>\<open>https://maxroll.gg[/a\<close>, for one). \<open>r_extracted\<close> is the outcome
  of the extraction block of \<^verbatim>\<open>parse\<close> (lines 184 to 294): the title and the content, or
  the exception that block raises (it calls \<^verbatim>\<open>urljoin\<close> on links and images, outside any
  \<^verbatim>\<open>try\<close>). A response that is not text makes every selection raise, the first one of
  the extraction block included: it is a response with no links whose extraction
  raises. Which exception is raised plays no part in what \<^verbatim>\<open>parse\<close> does.
\<close>

record response =
  r_url :: string
  r_meta_depth :: "int option"
  r_extracted :: "py_error + string option \<times> content"
  r_anchors :: "(py_error + string) list"

record request =
  req_url :: string
  req_depth :: int

text \<open>The four counters local to one call of \<^verbatim>\<open>parse\<close>.\<close>

record tally =
  links_followed :: int
  links_filtered :: int
  links_duplicate :: int
  links_new_found :: int

definition tally0 :: tally where
  "tally0 = \<lparr>links_followed = 0, links_filtered = 0, links_duplicate = 0, links_new_found = 0\<rparr>"

text \<open>
  The links of a page that \<^verbatim>\<open>urljoin\<close> resolves, and the first exception it raises
  on the page, if any.
\<close>

fun resolved :: "(py_error + string) list \<Rightarrow> string list" where
  "resolved [] = []"
| "resolved (Inl e # hrefs) = resolved hrefs"
| "resolved (Inr full_url # hrefs) = full_url # resolved hrefs"

fun first_error :: "(py_error + string) list \<Rightarrow> py_error option" where
  "first_error [] = None"
| "first_error (Inl e # hrefs) = Some e"
| "first_error (Inr full_url # hrefs) = first_error hrefs"

text \<open>
  \<^verbatim>\<open>_estimate_total_pages\<close>. On the first page it resolves every link, so it raises
  what \<^verbatim>\<open>urljoin\<close> raises, before the estimate is stored.
\<close>

definition estimate_total_pages :: "spider \<Rightarrow> response \<Rightarrow> py_error + spider" where
  "estimate_total_pages s resp =
     (if pages_processed s = 1 then
        (case first_error (r_anchors resp) of
           Some e \<Rightarrow> Inl e
         | None \<Rightarrow>
            (let potential_links =
                   int (length (filter (\<lambda>full_url. followable full_url
                          \<and> matches_filter (path_filter s) (filter_depth s) full_url)
                        (resolved (r_anchors resp))))
             in if 0 < potential_links then
                  (let est = max potential_links 5
                   in case max_depth s of
                        None \<Rightarrow> Inr (s\<lparr>estimated_total_pages := min (est * 2) 50\<rparr>)
                      | Some m \<Rightarrow>
                          if m \<noteq> 0 \<and> 1 < m
                          then Inr (s\<lparr>estimated_total_pages := min (est * m) 100\<rparr>)
                          else Inr (s\<lparr>estimated_total_pages := min (est * 2) 50\<rparr>))
                else Inr s))
      else Inr s)"

text \<open>\<^verbatim>\<open>_collect_data\<close>.\<close>

definition collect_data :: "spider \<Rightarrow> item \<Rightarrow> spider" where
  "collect_data s c = s\<lparr>collected_data := collected_data s @ [c]\<rparr>"

text \<open>
  One round of the link loop of \<^verbatim>\<open>parse\<close> (lines 305 to 338), for the resolved link
  \<open>full_url\<close>. The loop state is the spider, the local counters and the requests yielded
  so far.
\<close>

definition follow_link ::
  "int \<Rightarrow> string \<Rightarrow> spider \<times> tally \<times> request list \<Rightarrow> spider \<times> tally \<times> request list" where
  "follow_link current_depth full_url st =
     (case st of (s, t, out) \<Rightarrow>
        if followable full_url then
          (let normalized_full_url = spider_normalize_url full_url;
               (s1, t1) = (if normalized_full_url \<notin> urls_found s
                           then (s\<lparr>urls_found := insert normalized_full_url (urls_found s)\<rparr>,
                                 t\<lparr>links_new_found := links_new_found t + 1\<rparr>)
                           else (s, t))
           in if matches_filter (path_filter s1) (filter_depth s1) full_url then
                (if normalized_full_url \<in> urls_scraped s1
                 then (s1\<lparr>duplicate_urls_skipped := duplicate_urls_skipped s1 + 1\<rparr>,
                       t1\<lparr>links_duplicate := links_duplicate t1 + 1\<rparr>, out)
                 else (s1\<lparr>urls_scraped := insert normalized_full_url (urls_scraped s1)\<rparr>,
                       t1\<lparr>links_followed := links_followed t1 + 1\<rparr>,
                       out @ [\<lparr>req_url = full_url, req_depth = current_depth + 1\<rparr>]))
              else (s1\<lparr>pages_filtered := pages_filtered s1 + 1\<rparr>,
                    t1\<lparr>links_filtered := links_filtered t1 + 1\<rparr>, out))
        else st)"

text \<open>
  \<^verbatim>\<open>response.meta.get('depth', 0)\<close>, and the test
  \<^verbatim>\<open>self.max_depth is not None and current_depth > self.max_depth\<close>.
\<close>

definition current_depth :: "response \<Rightarrow> int" where
  "current_depth resp = (case r_meta_depth resp of None \<Rightarrow> 0 | Some d \<Rightarrow> d)"

definition depth_exceeds :: "spider \<Rightarrow> response \<Rightarrow> bool" where
  "depth_exceeds s resp = (case max_depth s of None \<Rightarrow> False | Some m \<Rightarrow> m < current_depth resp)"

text \<open>
  The extraction block of \<^verbatim>\<open>parse\<close> (lines 184 to 294): the record of the page, or the
  exception raised while building it.
\<close>

definition extract_page :: "response \<Rightarrow> py_error + item" where
  "extract_page resp =
     (case r_extracted resp of
        Inl e \<Rightarrow> Inl e
      | Inr (title, c) \<Rightarrow>
          Inr \<lparr>item_url = Some (r_url resp), item_title = title, item_content = Some c\<rparr>)"

text \<open>
  The link loop of \<^verbatim>\<open>parse\<close> (lines 305 to 338). A link that \<^verbatim>\<open>urljoin\<close> cannot resolve
  ends the loop with the exception; what the earlier rounds did stays done.
\<close>

fun follow_links ::
  "int \<Rightarrow> (py_error + string) list \<Rightarrow> spider \<times> tally \<times> request list
     \<Rightarrow> (spider \<times> tally \<times> request list) \<times> py_error option" where
  "follow_links depth [] st = (st, None)"
| "follow_links depth (Inl e # hrefs) st = (st, Some e)"
| "follow_links depth (Inr full_url # hrefs) st =
     follow_links depth hrefs (follow_link depth full_url st)"

text \<open>
  \<^verbatim>\<open>parse\<close>: the new spider state, the requests the generator yields, and the exception
  that ends it, if any. The page is counted (line 172) before \<^verbatim>\<open>_estimate_total_pages\<close>
  and the extraction block run, and it is collected (line 297) only after them: a page
  on which one of them raises is counted as processed, not collected, and none of its
  links is looked at.
\<close>

definition parse :: "spider \<Rightarrow> response \<Rightarrow> spider \<times> request list \<times> py_error option" where
  "parse s resp =
     (if max_pages s \<le> pages_processed s then (s, [], None)
      else if depth_exceeds s resp then (s\<lparr>depth_exceeded := depth_exceeded s + 1\<rparr>, [], None)
      else
        (let s1 = s\<lparr>current_page_url := r_url resp\<rparr>;
             s2 = s1\<lparr>pages_processed := pages_processed s1 + 1\<rparr>
         in case estimate_total_pages s2 resp of
              Inl e \<Rightarrow> (s2, [], Some e)
            | Inr s3 \<Rightarrow>
               (case extract_page resp of
                  Inl e \<Rightarrow> (s3, [], Some e)
                | Inr c \<Rightarrow>
                   (let s4 = collect_data s3 c
                    in case follow_links (current_depth resp) (r_anchors resp) (s4, tally0, []) of
                         ((s5, t, out), err) \<Rightarrow> (s5, out, err)))))"




text \<open>
  A crawl. Scrapy delivers responses to \<^verbatim>\<open>parse\<close> one at a time; \<open>crawl\<close> runs
  \<^verbatim>\<open>parse\<close> over a sequence of responses and collects the requests yielded. An
  exception raised by \<^verbatim>\<open>parse\<close> is logged by Scrapy and the crawl goes on.
\<close>

fun crawl :: "spider \<Rightarrow> response list \<Rightarrow> spider \<times> request list" where
  "crawl s [] = (s, [])"
| "crawl s (resp # resps) =
     (case parse s resp of (s', out, err) \<Rightarrow>
        (case crawl s' resps of (s'', out') \<Rightarrow> (s'', out @ out')))"

text \<open>
  The states a crawl can reach from \<open>s0\<close>, with the requests issued so far. The body of
  \<^verbatim>\<open>parse\<close> is a generator, which Scrapy may resume between two rounds of the link
  loop of another page: rule \<open>link\<close> lets single rounds of the loop happen in any order.
\<close>

inductive reachable :: "spider \<Rightarrow> spider \<times> request list \<Rightarrow> bool" for s0 :: spider where
  start: "reachable s0 (s0, [])"
| page: "reachable s0 (s, q) \<Longrightarrow> parse s resp = (s', out, err) \<Longrightarrow> reachable s0 (s', q @ out)"
| link: "reachable s0 (s, q) \<Longrightarrow> follow_link d full_url (s, t, []) = (s', t', out)
           \<Longrightarrow> reachable s0 (s', q @ out)"


section \<open>The specification's scope rule\<close>

text \<open>
  The scope rule for a filter depth of at least two, in the words of the specification:
  a candidate is in scope when it has at least \<open>depth\<close> segments and its first \<open>depth\<close>
  segments equal the rule, or it has fewer segments and they are a prefix of the rule.
\<close>

definition in_scope_spec :: "nat \<Rightarrow> string list \<Rightarrow> string list \<Rightarrow> bool" where
  "in_scope_spec depth rule segs =
     (if depth \<le> length segs then take depth segs = rule else prefix segs rule)"


section \<open>The merge pipeline of the specification\<close>

text \<open>
  The two keys of a record: the normalised URL under which \<^verbatim>\<open>deduplicate_data\<close> groups
  it, and its content digest \<^verbatim>\<open>get_content_hash(item.get('content', {}))\<close>.
\<close>

definition url_key :: "item \<Rightarrow> string" where
  "url_key it = normalize_url (get_url it)"

definition digest :: "(string \<Rightarrow> string) \<Rightarrow> item \<Rightarrow> string" where
  "digest md5 it = get_content_hash md5 (get_content it)"

text \<open>
  Steps 3 and 4 of the engine in the words of the specification. Grouping reduces every
  group to its highest-scoring record, the first one on a tie; the digest filter passes
  the survivors through a running set of digests and keeps the first record of each.
\<close>

definition survivors :: "(string \<times> item list) list \<Rightarrow> item list" where
  "survivors groups =
     concat (map (\<lambda>(k, items). case items of [] \<Rightarrow> []
                                 | x # xs \<Rightarrow> [max_from content_score x xs]) groups)"

fun digest_filter :: "(string \<Rightarrow> string) \<Rightarrow> string set \<Rightarrow> item list \<Rightarrow> item list" where
  "digest_filter md5 seen [] = []"
| "digest_filter md5 seen (b # bs) =
     (if digest md5 b \<in> seen then digest_filter md5 seen bs
      else b # digest_filter md5 (insert (digest md5 b) seen) bs)"


section \<open>The frontier invariant\<close>

text \<open>
  What the two URL sets of the spider satisfy throughout a crawl that started with the
  scraped set \<open>seeds\<close> and has issued the requests \<open>q\<close>: the scraped URLs are the seeds
  and the normalised URLs of the requests, no request repeats a URL or a seed, and
  every scraped URL has been discovered.
\<close>

definition frontier_inv :: "string set \<Rightarrow> spider \<Rightarrow> request list \<Rightarrow> bool" where
  "frontier_inv seeds s q =
     (urls_scraped s = seeds \<union> set (map (spider_normalize_url \<circ> req_url) q)
      \<and> distinct (map (spider_normalize_url \<circ> req_url) q)
      \<and> seeds \<inter> set (map (spider_normalize_url \<circ> req_url) q) = {}
      \<and> urls_scraped s \<subseteq> urls_found s
      \<and> finite (urls_found s))"


section \<open>The pages extracted\<close>

text \<open>
  What a page that \<^verbatim>\<open>parse\<close> processes adds to the collected data when
  \<^verbatim>\<open>_estimate_total_pages\<close> raises nothing: its record, or nothing when the extraction
  block raises.
\<close>

definition page_items :: "response \<Rightarrow> item list" where
  "page_items resp = (case extract_page resp of Inl e \<Rightarrow> [] | Inr c \<Rightarrow> [c])"


section \<open>Example data\<close>

text \<open>
  A spider started on one seed with filter depth 2, maximum depth 1 and a cap of three
  pages, and a page with a title, no content and the given resolved links.
\<close>

definition example_spider :: spider where
  "example_spider =
     spider_init (Some ''https://maxroll.gg/d4/getting-started/first-steps'')
       (Some 2) (Some 1) (Some 3)"

definition example_page :: "string \<Rightarrow> int \<Rightarrow> string list \<Rightarrow> response" where
  "example_page u d anchors =
     \<lparr>r_url = u, r_meta_depth = Some d, r_extracted = Inr (Some ''Guide'', empty_content),
      r_anchors = map Inr anchors\<rparr>"

text \<open>
  A page with a link \<^verbatim>\<open>urljoin\<close> cannot resolve (\<^verbatim>\<open>https://maxroll.gg[/a\<close> with some
  text): the extraction block raises on it, and so would the link loop.
\<close>

definition failing_page :: "string \<Rightarrow> int \<Rightarrow> response" where
  "failing_page u d =
     \<lparr>r_url = u, r_meta_depth = Some d, r_extracted = Inl ValueError,
      r_anchors = [Inl ValueError]\<rparr>"

text \<open>
  Page records: a guide page with one heading and one paragraph, the same page with a
  table added, and a record built from a URL, a title and a content.
\<close>

definition guide_content :: content where
  "guide_content =
     \<lparr>c_headings = Some [\<lparr>h_level = 1, h_text = ''Leveling''\<rparr>],
      c_paragraphs = Some [''Pick a class and follow the campaign.''],
      c_lists = Some [], c_links = Some [], c_images = Some [], c_tables = Some [],
      c_code_blocks = Some [], c_title = None\<rparr>"


definition page_record :: "string \<Rightarrow> string \<Rightarrow> content \<Rightarrow> item" where
  "page_record u t c = \<lparr>item_url = Some u, item_title = Some t, item_content = Some c\<rparr>"



section \<open>Properties of URL normalisation\<close>







































section \<open>Properties of the link loop\<close>

lemma str_in_single: "str_in [c] s = (c \<in> set s)"
  by (induction s) auto

lemma not_followable_iff:
  "(\<not> followable u) =
     (CHR ''#'' \<in> set u \<or> str_in ''javascript:'' u \<or> str_in ''mailto:'' u \<or> str_in ''.pdf'' u
      \<or> str_in ''.jpg'' u \<or> str_in ''.png'' u \<or> str_in ''.gif'' u \<or> str_in ''.webp'' u
      \<or> str_in ''.svg'' u \<or> \<not> startswith u ''https://maxroll.gg'')"
  by (auto simp: followable_def skip_list_def str_in_single)

lemma follow_link_not_followable: "\<not> followable u \<Longrightarrow> follow_link d u st = st"
  by (simp add: follow_link_def split: prod.splits)

text \<open>
  Claim C10. A resolved link that contains \<open>#\<close>, \<open>javascript:\<close>, \<open>mailto:\<close> or one of the
  listed file suffixes anywhere, or that does not start with \<open>https://maxroll.gg\<close>, leaves
  the loop state as it was: nothing is added to the discovered set, no counter moves and
  no request is yielded. A link with a fragment is such a link, so it never reaches
  normalisation.
\<close>

theorem discarded_link_leaves_no_trace:
  assumes "CHR ''#'' \<in> set u \<or> str_in ''javascript:'' u \<or> str_in ''mailto:'' u
      \<or> str_in ''.pdf'' u \<or> str_in ''.jpg'' u \<or> str_in ''.png'' u \<or> str_in ''.gif'' u
      \<or> str_in ''.webp'' u \<or> str_in ''.svg'' u \<or> \<not> startswith u ''https://maxroll.gg''"
  shows "follow_link d u (s, t, out) = (s, t, out)"
  using assms follow_link_not_followable not_followable_iff by blast

theorem discarded_link_leaves_no_trace_witness:
  "CHR ''#'' \<in> set ''https://maxroll.gg/d4/getting-started/skills#top''
   \<and> follow_link 0 ''https://maxroll.gg/d4/getting-started/skills#top''
        (example_spider, tally0, [])
      = (example_spider, tally0, [])"
proof -
  have h: "CHR ''#'' \<in> set ''https://maxroll.gg/d4/getting-started/skills#top''"
    by simp
  have "follow_link 0 ''https://maxroll.gg/d4/getting-started/skills#top''
        (example_spider, tally0, []) = (example_spider, tally0, [])"
    by (rule discarded_link_leaves_no_trace) (rule disjI1 [OF h])
  with h show ?thesis
    by (rule conjI)
qed

lemma follow_link_followable:
  assumes "followable u" and "follow_link d u (s, t, out) = (s', t', out')"
  shows "urls_found s' = insert (spider_normalize_url u) (urls_found s)
     \<and> links_new_found t' =
         links_new_found t + (if spider_normalize_url u \<in> urls_found s then 0 else 1)
     \<and> (\<not> matches_filter (path_filter s) (filter_depth s) u \<longrightarrow>
          pages_filtered s' = pages_filtered s + 1 \<and> links_filtered t' = links_filtered t + 1
          \<and> out' = out \<and> urls_scraped s' = urls_scraped s
          \<and> duplicate_urls_skipped s' = duplicate_urls_skipped s)
     \<and> (matches_filter (path_filter s) (filter_depth s) u
          \<and> spider_normalize_url u \<in> urls_scraped s \<longrightarrow>
          duplicate_urls_skipped s' = duplicate_urls_skipped s + 1
          \<and> links_duplicate t' = links_duplicate t + 1
          \<and> out' = out \<and> urls_scraped s' = urls_scraped s
          \<and> pages_filtered s' = pages_filtered s)
     \<and> (matches_filter (path_filter s) (filter_depth s) u
          \<and> spider_normalize_url u \<notin> urls_scraped s \<longrightarrow>
          urls_scraped s' = insert (spider_normalize_url u) (urls_scraped s)
          \<and> out' = out @ [\<lparr>req_url = u, req_depth = d + 1\<rparr>]
          \<and> links_followed t' = links_followed t + 1
          \<and> pages_filtered s' = pages_filtered s
          \<and> duplicate_urls_skipped s' = duplicate_urls_skipped s)"
  using assms
  by (auto simp: follow_link_def Let_def insert_absorb split: if_splits prod.splits)

text \<open>
  Claim C7, as amended. A raw link that fails the first test of the loop (it does not
  start with \<open>https://maxroll.gg\<close>, or it contains \<open>#\<close>, \<open>javascript:\<close>, \<open>mailto:\<close> or one
  of the listed file suffixes) is dropped before any step: the loop state stays as it
  was. For every other raw link, one round of the loop normalises it and puts it into
  the discovered set, counting it as newly found only when it was not there. Then: a
  link outside the scope counts as filtered and nothing else happens, whether or not it
  was known; a link in scope whose normalised URL is already scraped counts as a
  duplicate and nothing else happens; any other link is put into the scraped set, and
  the state returned together with its request already holds it.
\<close>

theorem frontier_order:
  assumes "follow_link d u (s, t, out) = (s', t', out')"
  shows "(\<not> followable u \<longrightarrow> s' = s \<and> t' = t \<and> out' = out)
     \<and> (followable u \<longrightarrow>
        urls_found s' = insert (spider_normalize_url u) (urls_found s)
        \<and> links_new_found t' =
            links_new_found t + (if spider_normalize_url u \<in> urls_found s then 0 else 1)
        \<and> (\<not> matches_filter (path_filter s) (filter_depth s) u \<longrightarrow>
             pages_filtered s' = pages_filtered s + 1 \<and> links_filtered t' = links_filtered t + 1
             \<and> out' = out \<and> urls_scraped s' = urls_scraped s
             \<and> duplicate_urls_skipped s' = duplicate_urls_skipped s)
        \<and> (matches_filter (path_filter s) (filter_depth s) u
             \<and> spider_normalize_url u \<in> urls_scraped s \<longrightarrow>
             duplicate_urls_skipped s' = duplicate_urls_skipped s + 1
             \<and> links_duplicate t' = links_duplicate t + 1
             \<and> out' = out \<and> urls_scraped s' = urls_scraped s
             \<and> pages_filtered s' = pages_filtered s)
        \<and> (matches_filter (path_filter s) (filter_depth s) u
             \<and> spider_normalize_url u \<notin> urls_scraped s \<longrightarrow>
             urls_scraped s' = insert (spider_normalize_url u) (urls_scraped s)
             \<and> out' = out @ [\<lparr>req_url = u, req_depth = d + 1\<rparr>]
             \<and> links_followed t' = links_followed t + 1
             \<and> pages_filtered s' = pages_filtered s
             \<and> duplicate_urls_skipped s' = duplicate_urls_skipped s))"
proof (rule conjI)
  show "\<not> followable u \<longrightarrow> s' = s \<and> t' = t \<and> out' = out"
  proof
    assume "\<not> followable u"
    from follow_link_not_followable [OF this, of d "(s, t, out)"] assms
    show "s' = s \<and> t' = t \<and> out' = out"
      by simp
  qed
next
  show "followable u \<longrightarrow>
        urls_found s' = insert (spider_normalize_url u) (urls_found s)
        \<and> links_new_found t' =
            links_new_found t + (if spider_normalize_url u \<in> urls_found s then 0 else 1)
        \<and> (\<not> matches_filter (path_filter s) (filter_depth s) u \<longrightarrow>
             pages_filtered s' = pages_filtered s + 1 \<and> links_filtered t' = links_filtered t + 1
             \<and> out' = out \<and> urls_scraped s' = urls_scraped s
             \<and> duplicate_urls_skipped s' = duplicate_urls_skipped s)
        \<and> (matches_filter (path_filter s) (filter_depth s) u
             \<and> spider_normalize_url u \<in> urls_scraped s \<longrightarrow>
             duplicate_urls_skipped s' = duplicate_urls_skipped s + 1
             \<and> links_duplicate t' = links_duplicate t + 1
             \<and> out' = out \<and> urls_scraped s' = urls_scraped s
             \<and> pages_filtered s' = pages_filtered s)
        \<and> (matches_filter (path_filter s) (filter_depth s) u
             \<and> spider_normalize_url u \<notin> urls_scraped s \<longrightarrow>
             urls_scraped s' = insert (spider_normalize_url u) (urls_scraped s)
             \<and> out' = out @ [\<lparr>req_url = u, req_depth = d + 1\<rparr>]
             \<and> links_followed t' = links_followed t + 1
             \<and> pages_filtered s' = pages_filtered s
             \<and> duplicate_urls_skipped s' = duplicate_urls_skipped s)"
    by (rule impI) (rule follow_link_followable [OF _ assms])
qed

theorem frontier_order_witness:
  "followable ''https://maxroll.gg/d4/getting-started/gear''
   \<and> matches_filter (path_filter example_spider) (filter_depth example_spider)
        ''https://maxroll.gg/d4/getting-started/gear''
   \<and> spider_normalize_url ''https://maxroll.gg/d4/getting-started/gear''
        \<notin> urls_scraped example_spider
   \<and> urls_scraped (fst (follow_link 0 ''https://maxroll.gg/d4/getting-started/gear''
          (example_spider, tally0, [])))
        = insert (spider_normalize_url ''https://maxroll.gg/d4/getting-started/gear'')
            (urls_scraped example_spider)
   \<and> snd (snd (follow_link 0 ''https://maxroll.gg/d4/getting-started/gear''
          (example_spider, tally0, [])))
        = [\<lparr>req_url = ''https://maxroll.gg/d4/getting-started/gear'', req_depth = 1\<rparr>]"
proof -
  let ?u = "''https://maxroll.gg/d4/getting-started/gear''"
  let ?F = "follow_link 0 ?u (example_spider, tally0, [])"
  have f: "followable ?u"
    by code_simp
  have m: "matches_filter (path_filter example_spider) (filter_depth example_spider) ?u"
    by code_simp
  have n: "spider_normalize_url ?u \<notin> urls_scraped example_spider"
    by code_simp
  have e: "?F = (fst ?F, fst (snd ?F), snd (snd ?F))"
    by simp
  from mp [OF conjunct2 [OF frontier_order [OF e]] f] m n have
    "urls_scraped (fst ?F) = insert (spider_normalize_url ?u) (urls_scraped example_spider)
     \<and> snd (snd ?F) = [] @ [\<lparr>req_url = ?u, req_depth = 0 + 1\<rparr>]"
    by simp
  with f m n show ?thesis
    by simp
qed

text \<open>
  Two raw links on which none of the steps happens. The first is in scope and neither
  discovered nor scraped, but it has a fragment: it is not normalised, not added to the
  discovered set, not added to the scraped set, and no request is issued. The second is
  on another site: it is not added to the discovered set and the filtered counter does
  not move.
\<close>

theorem frontier_order_counterexample:
  "matches_filter (path_filter example_spider) (filter_depth example_spider)
        ''https://maxroll.gg/d4/getting-started/skills#top''
   \<and> spider_normalize_url ''https://maxroll.gg/d4/getting-started/skills#top''
        \<notin> urls_found example_spider
   \<and> spider_normalize_url ''https://maxroll.gg/d4/getting-started/skills#top''
        \<notin> urls_scraped example_spider
   \<and> spider_normalize_url ''https://maxroll.gg/d4/getting-started/skills#top''
        \<notin> urls_found (fst (follow_link 0 ''https://maxroll.gg/d4/getting-started/skills#top''
              (example_spider, tally0, [])))
   \<and> spider_normalize_url ''https://maxroll.gg/d4/getting-started/skills#top''
        \<notin> urls_scraped (fst (follow_link 0 ''https://maxroll.gg/d4/getting-started/skills#top''
              (example_spider, tally0, [])))
   \<and> snd (snd (follow_link 0 ''https://maxroll.gg/d4/getting-started/skills#top''
          (example_spider, tally0, []))) = []
   \<and> links_new_found (fst (snd (follow_link 0
          ''https://maxroll.gg/d4/getting-started/skills#top''
          (example_spider, tally0, [])))) = 0
   \<and> \<not> matches_filter (path_filter example_spider) (filter_depth example_spider)
          ''https://www.youtube.com/maxroll''
   \<and> spider_normalize_url ''https://www.youtube.com/maxroll''
        \<notin> urls_found (fst (follow_link 0 ''https://www.youtube.com/maxroll''
              (example_spider, tally0, [])))
   \<and> pages_filtered (fst (follow_link 0 ''https://www.youtube.com/maxroll''
          (example_spider, tally0, []))) = pages_filtered example_spider
   \<and> links_filtered (fst (snd (follow_link 0 ''https://www.youtube.com/maxroll''
          (example_spider, tally0, [])))) = 0"
  by code_simp

section \<open>The hard stops of parse\<close>

lemma follow_link_frame:
  assumes "follow_link d u (s, t, out) = (s', t', out')"
  shows "pages_processed s' = pages_processed s \<and> collected_data s' = collected_data s
       \<and> max_pages s' = max_pages s \<and> max_depth s' = max_depth s
       \<and> depth_exceeded s' = depth_exceeded s \<and> start_urls s' = start_urls s"
  using assms
  by (auto simp: follow_link_def Let_def split: if_splits prod.splits)

lemma follow_links_frame:
  assumes "follow_links d hrefs (s, t, out) = ((s', t', out'), err)"
  shows "pages_processed s' = pages_processed s \<and> collected_data s' = collected_data s
       \<and> max_pages s' = max_pages s \<and> max_depth s' = max_depth s
       \<and> depth_exceeded s' = depth_exceeded s \<and> start_urls s' = start_urls s"
  using assms
proof (induction hrefs arbitrary: s t out)
  case Nil
  then show ?case by simp
next
  case (Cons h hrefs)
  show ?case
  proof (cases h)
    case (Inl e)
    with Cons.prems show ?thesis by simp
  next
    case (Inr u)
    obtain s1 t1 out1 where st: "follow_link d u (s, t, out) = (s1, t1, out1)"
      by (cases "follow_link d u (s, t, out)")
    with Cons.prems Inr have "follow_links d hrefs (s1, t1, out1) = ((s', t', out'), err)"
      by simp
    from Cons.IH [OF this] follow_link_frame [OF st] show ?thesis
      by simp
  qed
qed

lemma follow_links_result:
  obtains s' t' out' err where "follow_links d hrefs st = ((s', t', out'), err)"
proof -
  obtain st' err where a: "follow_links d hrefs st = (st', err)"
    by (cases "follow_links d hrefs st")
  obtain s' t' out' where "st' = (s', t', out')"
    by (cases st')
  with a that show thesis by simp
qed

lemma estimate_total_pages_cases:
  assumes "estimate_total_pages s resp = Inr s'"
  shows "s' = s \<or> (\<exists>n. s' = s\<lparr>estimated_total_pages := n\<rparr>)"
  using assms
  by (simp add: estimate_total_pages_def Let_def split: option.splits if_splits) blast+

lemma estimate_total_pages_frame:
  assumes "estimate_total_pages s resp = Inr s'"
  shows "pages_processed s' = pages_processed s
   \<and> collected_data s' = collected_data s
   \<and> max_pages s' = max_pages s
   \<and> max_depth s' = max_depth s
   \<and> depth_exceeded s' = depth_exceeded s
   \<and> start_urls s' = start_urls s
   \<and> urls_found s' = urls_found s
   \<and> urls_scraped s' = urls_scraped s"
  using estimate_total_pages_cases [OF assms] by auto

lemma estimate_total_pages_resolved:
  "first_error (r_anchors resp) = None \<Longrightarrow> \<exists>s'. estimate_total_pages s resp = Inr s'"
  by (simp add: estimate_total_pages_def Let_def split: option.splits)

lemma parse_cap: "max_pages s \<le> pages_processed s \<Longrightarrow> parse s resp = (s, [], None)"
  by (simp add: parse_def)

lemma parse_depth:
  "pages_processed s < max_pages s \<Longrightarrow> depth_exceeds s resp \<Longrightarrow>
     parse s resp = (s\<lparr>depth_exceeded := depth_exceeded s + 1\<rparr>, [], None)"
  by (simp add: parse_def)

lemma parse_within:
  assumes "pages_processed s < max_pages s" and "\<not> depth_exceeds s resp"
  shows "pages_processed (fst (parse s resp)) = pages_processed s + 1
       \<and> max_pages (fst (parse s resp)) = max_pages s
       \<and> max_depth (fst (parse s resp)) = max_depth s
       \<and> (collected_data (fst (parse s resp)) = collected_data s
          \<or> collected_data (fst (parse s resp)) = collected_data s @ page_items resp)"
proof -
  let ?s2 = "s\<lparr>current_page_url := r_url resp, pages_processed := pages_processed s + 1\<rparr>"
  show ?thesis
  proof (cases "estimate_total_pages ?s2 resp")
    case (Inl e)
    with assms have "parse s resp = (?s2, [], Some e)"
      by (simp add: parse_def Let_def)
    then show ?thesis by simp
  next
    case (Inr s3)
    note s3 = estimate_total_pages_frame [OF Inr]
    show ?thesis
    proof (cases "extract_page resp")
      case (Inl e)
      with assms Inr have "parse s resp = (s3, [], Some e)"
        by (simp add: parse_def Let_def)
      with s3 show ?thesis by simp
    next
      case c: (Inr c)
      obtain s5 t out err where
        f: "follow_links (current_depth resp) (r_anchors resp) (collect_data s3 c, tally0, [])
              = ((s5, t, out), err)"
        by (rule follow_links_result)
      with assms Inr c have "parse s resp = (s5, out, err)"
        by (simp add: parse_def Let_def)
      with follow_links_frame [OF f] s3 c show ?thesis
        by (simp add: collect_data_def page_items_def)
    qed
  qed
qed

lemma parse_within_collected:
  assumes "pages_processed s < max_pages s" and "\<not> depth_exceeds s resp"
    and "first_error (r_anchors resp) = None"
  shows "collected_data (fst (parse s resp)) = collected_data s @ page_items resp"
proof -
  let ?s2 = "s\<lparr>current_page_url := r_url resp, pages_processed := pages_processed s + 1\<rparr>"
  from estimate_total_pages_resolved [OF assms(3)] obtain s3 where
    Inr: "estimate_total_pages ?s2 resp = Inr s3" by blast
  note s3 = estimate_total_pages_frame [OF Inr]
  show ?thesis
  proof (cases "extract_page resp")
    case (Inl e)
    with assms Inr have "parse s resp = (s3, [], Some e)"
      by (simp add: parse_def Let_def)
    with s3 Inl show ?thesis by (simp add: page_items_def)
  next
    case c: (Inr c)
    obtain s5 t out err where
      f: "follow_links (current_depth resp) (r_anchors resp) (collect_data s3 c, tally0, [])
            = ((s5, t, out), err)"
      by (rule follow_links_result)
    with assms Inr c have "parse s resp = (s5, out, err)"
      by (simp add: parse_def Let_def)
    with follow_links_frame [OF f] s3 c show ?thesis
      by (simp add: collect_data_def page_items_def)
  qed
qed

lemma page_items_length: "length (page_items resp) \<le> 1"
  by (simp add: page_items_def split: sum.splits)

lemma crawl_step:
  "fst (crawl s (r # resps)) = fst (crawl (fst (parse s r)) resps)"
  by (simp split: prod.splits)

lemma depth_exceeds_cong:
  "max_depth s1 = max_depth s \<Longrightarrow> depth_exceeds s1 x = depth_exceeds s x"
  by (simp add: depth_exceeds_def)

lemma crawl_cases:
  obtains (cap) "max_pages s \<le> pages_processed s" "fst (parse s r) = s"
      "nat (max_pages s - pages_processed s) = 0"
  | (deep) "pages_processed s < max_pages s" "depth_exceeds s r"
      "fst (parse s r) = s\<lparr>depth_exceeded := depth_exceeded s + 1\<rparr>"
  | (within) "pages_processed s < max_pages s" "\<not> depth_exceeds s r"
      "pages_processed (fst (parse s r)) = pages_processed s + 1"
      "max_pages (fst (parse s r)) = max_pages s"
      "\<And>x. depth_exceeds (fst (parse s r)) x = depth_exceeds s x"
      "nat (max_pages s - pages_processed s) = Suc (nat (max_pages s - (pages_processed s + 1)))"
      "collected_data (fst (parse s r)) = collected_data s
         \<or> collected_data (fst (parse s r)) = collected_data s @ page_items r"
proof -
  consider (a) "max_pages s \<le> pages_processed s"
    | (b) "pages_processed s < max_pages s" "depth_exceeds s r"
    | (c) "pages_processed s < max_pages s" "\<not> depth_exceeds s r"
    by linarith
  then show thesis
  proof cases
    case a
    then have 1: "fst (parse s r) = s" by (simp add: parse_cap)
    from a have 2: "nat (max_pages s - pages_processed s) = 0" by simp
    show thesis by (rule cap [OF a 1 2])
  next
    case b
    then have 1: "fst (parse s r) = s\<lparr>depth_exceeded := depth_exceeded s + 1\<rparr>"
      by (simp add: parse_depth)
    show thesis by (rule deep [OF b 1])
  next
    case c
    note e = parse_within [OF c]
    have n: "nat (max_pages s - pages_processed s)
        = Suc (nat (max_pages s - (pages_processed s + 1)))"
      using c by linarith
    have d: "\<And>x. depth_exceeds (fst (parse s r)) x = depth_exceeds s x"
      by (rule depth_exceeds_cong) (simp add: e)
    show thesis
      by (rule within [OF c conjunct1 [OF e] conjunct1 [OF conjunct2 [OF e]] d n
            conjunct2 [OF conjunct2 [OF conjunct2 [OF e]]]])
  qed
qed

lemma crawl_processed:
  "pages_processed (fst (crawl s resps)) =
     pages_processed s
       + int (min (nat (max_pages s - pages_processed s))
               (length (filter (\<lambda>r. \<not> depth_exceeds s r) resps)))"
proof (induction resps arbitrary: s)
  case Nil
  then show ?case by simp
next
  case (Cons r resps)
  let ?s1 = "fst (parse s r)"
  show ?case
  proof (cases rule: crawl_cases [of s r])
    case cap
    show ?thesis
      unfolding crawl_step cap(2) using Cons.IH [of s] cap(3) by simp
  next
    case deep
    have d: "\<And>x. depth_exceeds (s\<lparr>depth_exceeded := depth_exceeded s + 1\<rparr>) x = depth_exceeds s x"
      by (simp add: depth_exceeds_def)
    show ?thesis
      unfolding crawl_step deep(3)
      using Cons.IH [of "s\<lparr>depth_exceeded := depth_exceeded s + 1\<rparr>"] deep(2)
      by (simp add: d)
  next
    case within
    from Cons.IH [of ?s1] have
      "pages_processed (fst (crawl ?s1 resps)) = pages_processed s + 1
         + int (min (nat (max_pages s - (pages_processed s + 1)))
               (length (filter (\<lambda>r. \<not> depth_exceeds s r) resps)))"
      by (simp only: within(3,4,5))
    then show ?thesis
      unfolding crawl_step using within(2) by (simp add: within(6))
  qed
qed

lemma crawl_extracted_le:
  "length (collected_data (fst (crawl s resps))) \<le>
     length (collected_data s)
       + min (nat (max_pages s - pages_processed s))
             (length (filter (\<lambda>r. \<not> depth_exceeds s r) resps))"
proof (induction resps arbitrary: s)
  case Nil
  then show ?case by simp
next
  case (Cons r resps)
  let ?s1 = "fst (parse s r)"
  show ?case
  proof (cases rule: crawl_cases [of s r])
    case cap
    show ?thesis
      unfolding crawl_step cap(2) using Cons.IH [of s] cap(3) by simp
  next
    case deep
    have d: "\<And>x. depth_exceeds (s\<lparr>depth_exceeded := depth_exceeded s + 1\<rparr>) x = depth_exceeds s x"
      by (simp add: depth_exceeds_def)
    show ?thesis
      unfolding crawl_step deep(3)
      using Cons.IH [of "s\<lparr>depth_exceeded := depth_exceeded s + 1\<rparr>"] deep(2)
      by (simp add: d)
  next
    case within
    from within(7) page_items_length [of r]
    have l: "length (collected_data ?s1) \<le> length (collected_data s) + 1"
      by auto
    from Cons.IH [of ?s1] have
      "length (collected_data (fst (crawl ?s1 resps))) \<le>
         length (collected_data ?s1)
           + min (nat (max_pages s - (pages_processed s + 1)))
               (length (filter (\<lambda>r. \<not> depth_exceeds s r) resps))"
      by (simp only: within(3,4,5))
    with l show ?thesis
      unfolding crawl_step using within(2) by (simp add: within(6))
  qed
qed

lemma crawl_extracted:
  assumes "\<forall>r\<in>set resps. first_error (r_anchors r) = None"
  shows "collected_data (fst (crawl s resps)) =
     collected_data s
       @ concat (map page_items
           (take (nat (max_pages s - pages_processed s))
              (filter (\<lambda>r. \<not> depth_exceeds s r) resps)))"
  using assms
proof (induction resps arbitrary: s)
  case Nil
  then show ?case by simp
next
  case (Cons r resps)
  let ?s1 = "fst (parse s r)"
  from Cons.prems have rest: "\<forall>r\<in>set resps. first_error (r_anchors r) = None"
    and r: "first_error (r_anchors r) = None" by simp_all
  note IH = Cons.IH [OF rest]
  show ?case
  proof (cases rule: crawl_cases [of s r])
    case cap
    show ?thesis
      unfolding crawl_step cap(2) using IH [of s] cap(3) by simp
  next
    case deep
    have d: "\<And>x. depth_exceeds (s\<lparr>depth_exceeded := depth_exceeded s + 1\<rparr>) x = depth_exceeds s x"
      by (simp add: depth_exceeds_def)
    show ?thesis
      unfolding crawl_step deep(3)
      using IH [of "s\<lparr>depth_exceeded := depth_exceeded s + 1\<rparr>"] deep(2)
      by (simp add: d)
  next
    case within
    note k = parse_within_collected [OF within(1,2) r]
    from IH [of ?s1] have
      "collected_data (fst (crawl ?s1 resps)) =
         (collected_data s @ page_items r)
           @ concat (map page_items (take (nat (max_pages s - (pages_processed s + 1)))
               (filter (\<lambda>r. \<not> depth_exceeds s r) resps)))"
      by (simp only: within(3,4,5) k)
    then show ?thesis
      unfolding crawl_step using within(2) by (simp add: within(6))
  qed
qed

text \<open>
  Claim C6. \<^verbatim>\<open>parse\<close> begins with two stops. When the count of pages processed has
  reached the cap, it returns with the state untouched and yields nothing. Otherwise,
  when the depth of the page exceeds the maximum depth, it adds one to the
  depth-exceeded counter and returns: nothing is collected, no URL is discovered or
  scraped, nothing is yielded. Over a whole crawl the pages counted as processed are the
  responses within the maximum depth, up to what the cap leaves; the pages extracted are
  at most as many, and when \<^verbatim>\<open>urljoin\<close> resolves every link they are the records of
  exactly those counted pages on which extraction raises nothing.
\<close>

theorem hard_stops:
  "(max_pages s \<le> pages_processed s \<longrightarrow> parse s resp = (s, [], None))
   \<and> (pages_processed s < max_pages s \<and> depth_exceeds s resp \<longrightarrow>
        parse s resp = (s\<lparr>depth_exceeded := depth_exceeded s + 1\<rparr>, [], None))
   \<and> pages_processed (fst (crawl s resps)) =
        pages_processed s
          + int (min (nat (max_pages s - pages_processed s))
                  (length (filter (\<lambda>r. \<not> depth_exceeds s r) resps)))
   \<and> length (collected_data (fst (crawl s resps))) \<le>
        length (collected_data s)
          + min (nat (max_pages s - pages_processed s))
                (length (filter (\<lambda>r. \<not> depth_exceeds s r) resps))
   \<and> ((\<forall>r\<in>set resps. first_error (r_anchors r) = None) \<longrightarrow>
        collected_data (fst (crawl s resps)) =
          collected_data s
            @ concat (map page_items
                (take (nat (max_pages s - pages_processed s))
                   (filter (\<lambda>r. \<not> depth_exceeds s r) resps))))"
proof -
  have 1: "max_pages s \<le> pages_processed s \<longrightarrow> parse s resp = (s, [], None)"
    by (simp add: parse_cap)
  have 2: "pages_processed s < max_pages s \<and> depth_exceeds s resp \<longrightarrow>
        parse s resp = (s\<lparr>depth_exceeded := depth_exceeded s + 1\<rparr>, [], None)"
    by (simp add: parse_depth)
  have 5: "(\<forall>r\<in>set resps. first_error (r_anchors r) = None) \<longrightarrow>
        collected_data (fst (crawl s resps)) =
          collected_data s
            @ concat (map page_items
                (take (nat (max_pages s - pages_processed s))
                   (filter (\<lambda>r. \<not> depth_exceeds s r) resps)))"
    by (rule impI) (rule crawl_extracted)
  show ?thesis
    by (rule conjI [OF 1 conjI [OF 2 conjI [OF crawl_processed conjI [OF crawl_extracted_le 5]]]])
qed

lemma example_spider_simps:
  "max_pages example_spider = 3" "pages_processed example_spider = 0"
  "max_depth example_spider = Some 1" "collected_data example_spider = []"
  "depth_exceeded example_spider = 0"
  by (simp_all add: example_spider_def spider_init_def Let_def)

theorem hard_stops_witness:
  "parse (example_spider\<lparr>pages_processed := 3\<rparr>)
         (example_page ''https://maxroll.gg/d4/getting-started/a'' 1 [])
     = (example_spider\<lparr>pages_processed := 3\<rparr>, [], None)
   \<and> parse example_spider
         (example_page ''https://maxroll.gg/d4/getting-started/b'' 2
            [''https://maxroll.gg/d4/getting-started/c''])
     = (example_spider\<lparr>depth_exceeded := depth_exceeded example_spider + 1\<rparr>, [], None)
   \<and> map item_url (collected_data (fst (crawl example_spider
         [example_page ''https://maxroll.gg/d4/getting-started/first-steps'' 0 [],
          example_page ''https://maxroll.gg/d4/getting-started/a'' 1 [],
          example_page ''https://maxroll.gg/d4/getting-started/b'' 2 [],
          example_page ''https://maxroll.gg/d4/getting-started/c'' 1 [],
          example_page ''https://maxroll.gg/d4/getting-started/d'' 1 [],
          example_page ''https://maxroll.gg/d4/getting-started/e'' 1 []])))
       = [Some ''https://maxroll.gg/d4/getting-started/first-steps'',
          Some ''https://maxroll.gg/d4/getting-started/a'',
          Some ''https://maxroll.gg/d4/getting-started/c'']"
proof -
  let ?full = "example_spider\<lparr>pages_processed := 3\<rparr>"
  let ?a = "example_page ''https://maxroll.gg/d4/getting-started/a'' 1 []"
  let ?b = "example_page ''https://maxroll.gg/d4/getting-started/b'' 2
            [''https://maxroll.gg/d4/getting-started/c'']"
  let ?run = "[example_page ''https://maxroll.gg/d4/getting-started/first-steps'' 0 [],
          example_page ''https://maxroll.gg/d4/getting-started/a'' 1 [],
          example_page ''https://maxroll.gg/d4/getting-started/b'' 2 [],
          example_page ''https://maxroll.gg/d4/getting-started/c'' 1 [],
          example_page ''https://maxroll.gg/d4/getting-started/d'' 1 [],
          example_page ''https://maxroll.gg/d4/getting-started/e'' 1 []]"
  have cap: "max_pages ?full \<le> pages_processed ?full"
    by (simp add: example_spider_simps)
  have deep: "pages_processed example_spider < max_pages example_spider \<and> depth_exceeds example_spider ?b"
    by (simp add: example_spider_simps depth_exceeds_def current_depth_def example_page_def)
  have links: "\<forall>r\<in>set ?run. first_error (r_anchors r) = None"
    by (simp add: example_page_def)
  have urls: "map item_url (collected_data example_spider
      @ concat (map page_items
          (take (nat (max_pages example_spider - pages_processed example_spider))
             (filter (\<lambda>r. \<not> depth_exceeds example_spider r) ?run))))
       = [Some ''https://maxroll.gg/d4/getting-started/first-steps'',
          Some ''https://maxroll.gg/d4/getting-started/a'',
          Some ''https://maxroll.gg/d4/getting-started/c'']"
    by (simp add: example_spider_simps depth_exceeds_def current_depth_def example_page_def
          page_items_def extract_page_def)
  note h1 = hard_stops [of ?full ?a "[]"]
  note h2 = hard_stops [of example_spider ?b ?run]
  have 1: "parse ?full ?a = (?full, [], None)"
    by (rule mp [OF conjunct1 [OF h1] cap])
  have 2: "parse example_spider ?b
      = (example_spider\<lparr>depth_exceeded := depth_exceeded example_spider + 1\<rparr>, [], None)"
    by (rule mp [OF conjunct1 [OF conjunct2 [OF h2]] deep])
  have 3: "collected_data (fst (crawl example_spider ?run)) =
      collected_data example_spider
      @ concat (map page_items
          (take (nat (max_pages example_spider - pages_processed example_spider))
             (filter (\<lambda>r. \<not> depth_exceeds example_spider r) ?run)))"
    by (rule mp [OF conjunct2 [OF conjunct2 [OF conjunct2 [OF conjunct2 [OF h2]]]] links])
  have 4: "map item_url (collected_data (fst (crawl example_spider ?run)))
       = [Some ''https://maxroll.gg/d4/getting-started/first-steps'',
          Some ''https://maxroll.gg/d4/getting-started/a'',
          Some ''https://maxroll.gg/d4/getting-started/c'']"
    by (rule trans [OF arg_cong [where f = "map item_url", OF 3] urls])
  show ?thesis
    by (rule conjI [OF 1 conjI [OF 2 4]])
qed

text \<open>
  With a cap of three, five pages within the maximum depth arrive. The second raises
  during extraction: it is counted, not collected. The cap is reached with the third
  page, and two pages are extracted, not three.
\<close>

theorem page_cap_counterexample:
  "max_pages example_spider = 3
   \<and> pages_processed (fst (crawl example_spider
         [example_page ''https://maxroll.gg/d4/getting-started/first-steps'' 0 [],
          failing_page ''https://maxroll.gg/d4/getting-started/a'' 1,
          example_page ''https://maxroll.gg/d4/getting-started/c'' 1 [],
          example_page ''https://maxroll.gg/d4/getting-started/d'' 1 [],
          example_page ''https://maxroll.gg/d4/getting-started/e'' 1 []])) = 3
   \<and> map item_url (collected_data (fst (crawl example_spider
         [example_page ''https://maxroll.gg/d4/getting-started/first-steps'' 0 [],
          failing_page ''https://maxroll.gg/d4/getting-started/a'' 1,
          example_page ''https://maxroll.gg/d4/getting-started/c'' 1 [],
          example_page ''https://maxroll.gg/d4/getting-started/d'' 1 [],
          example_page ''https://maxroll.gg/d4/getting-started/e'' 1 []])))
       = [Some ''https://maxroll.gg/d4/getting-started/first-steps'',
          Some ''https://maxroll.gg/d4/getting-started/c'']
   \<and> length (collected_data (fst (crawl example_spider
         [example_page ''https://maxroll.gg/d4/getting-started/first-steps'' 0 [],
          failing_page ''https://maxroll.gg/d4/getting-started/a'' 1,
          example_page ''https://maxroll.gg/d4/getting-started/c'' 1 [],
          example_page ''https://maxroll.gg/d4/getting-started/d'' 1 [],
          example_page ''https://maxroll.gg/d4/getting-started/e'' 1 []]))) = 2"
  by code_simp


section \<open>The frontier invariant holds\<close>

lemma frontier_inv_cong:
  "urls_scraped s' = urls_scraped s \<Longrightarrow> urls_found s' = urls_found s \<Longrightarrow>
     frontier_inv seeds s' q = frontier_inv seeds s q"
  by (simp add: frontier_inv_def)

lemma frontier_inv_found:
  assumes "frontier_inv seeds s q" and "urls_scraped s' = urls_scraped s"
    and "urls_found s' = insert n (urls_found s)"
  shows "frontier_inv seeds s' q"
  using assms by (auto simp: frontier_inv_def)

lemma frontier_inv_new:
  assumes "frontier_inv seeds s q" and "n \<notin> urls_scraped s"
    and "urls_scraped s' = insert n (urls_scraped s)"
    and "urls_found s' = insert n (urls_found s)"
    and "spider_normalize_url (req_url r) = n"
  shows "frontier_inv seeds s' (q @ [r])"
  using assms by (auto simp: frontier_inv_def)

lemma follow_link_inv:
  assumes step: "follow_link d u (s, t, out) = (s', t', out')"
    and inv: "frontier_inv seeds s (q @ out)"
  shows "frontier_inv seeds s' (q @ out')"
proof (cases "followable u")
  case False
  with step have "s' = s" "out' = out"
    by (simp_all add: follow_link_def)
  with inv show ?thesis by simp
next
  case True
  let ?n = "spider_normalize_url u"
  let ?m = "matches_filter (path_filter s) (filter_depth s) u"
  have found: "urls_found s' = insert ?n (urls_found s)"
    using step True
    by (auto simp: follow_link_def Let_def insert_absorb split: if_splits prod.splits)
  consider (skip) "\<not> ?m \<or> ?n \<in> urls_scraped s" | (new) "?m" "?n \<notin> urls_scraped s"
    by blast
  then show ?thesis
  proof cases
    case skip
    then have "urls_scraped s' = urls_scraped s" "out' = out"
      using step True
      by (auto simp: follow_link_def Let_def split: if_splits prod.splits)
    with frontier_inv_found [OF inv _ found] show ?thesis
      by simp
  next
    case new
    then have sc: "urls_scraped s' = insert ?n (urls_scraped s)"
      and out: "out' = out @ [\<lparr>req_url = u, req_depth = d + 1\<rparr>]"
      using step True
      by (auto simp: follow_link_def Let_def split: if_splits prod.splits)
    from frontier_inv_new [OF inv new(2) sc found, of "\<lparr>req_url = u, req_depth = d + 1\<rparr>"]
    show ?thesis
      by (simp add: out)
  qed
qed

lemma follow_links_inv:
  assumes "follow_links d hrefs (s, t, out) = ((s', t', out'), err)"
    and "frontier_inv seeds s (q @ out)"
  shows "frontier_inv seeds s' (q @ out')"
  using assms
proof (induction hrefs arbitrary: s t out)
  case Nil
  then show ?case by simp
next
  case (Cons h hrefs)
  show ?case
  proof (cases h)
    case (Inl e)
    with Cons.prems show ?thesis by simp
  next
    case (Inr u)
    obtain s1 t1 out1 where st: "follow_link d u (s, t, out) = (s1, t1, out1)"
      by (cases "follow_link d u (s, t, out)")
    with Cons.prems(1) Inr have
      rest: "follow_links d hrefs (s1, t1, out1) = ((s', t', out'), err)"
      by simp
    from Cons.IH [OF rest follow_link_inv [OF st Cons.prems(2)]] show ?thesis .
  qed
qed

lemma parse_inv:
  assumes p: "parse s resp = (s', out', err)" and inv: "frontier_inv seeds s q"
  shows "frontier_inv seeds s' (q @ out')"
proof -
  consider (cap) "max_pages s \<le> pages_processed s"
    | (deep) "pages_processed s < max_pages s" "depth_exceeds s resp"
    | (within) "pages_processed s < max_pages s" "\<not> depth_exceeds s resp"
    by linarith
  then show ?thesis
  proof cases
    case cap
    with p inv show ?thesis by (simp add: parse_cap)
  next
    case deep
    with p have s': "s' = s\<lparr>depth_exceeded := depth_exceeded s + 1\<rparr>" and "out' = []"
      by (simp_all add: parse_depth)
    have "frontier_inv seeds s' q = frontier_inv seeds s q"
      by (rule frontier_inv_cong) (simp_all add: s')
    with inv \<open>out' = []\<close> show ?thesis
      by simp
  next
    case within
    let ?s2 = "s\<lparr>current_page_url := r_url resp, pages_processed := pages_processed s + 1\<rparr>"
    show ?thesis
    proof (cases "estimate_total_pages ?s2 resp")
      case (Inl e)
      with within have "parse s resp = (?s2, [], Some e)"
        by (simp add: parse_def Let_def)
      with p have eq: "s' = ?s2" "out' = []" by simp_all
      have "frontier_inv seeds s' q = frontier_inv seeds s q"
        by (rule frontier_inv_cong) (simp_all add: eq)
      with inv eq(2) show ?thesis
        by simp
    next
      case (Inr s3)
      note s3 = estimate_total_pages_frame [OF Inr]
      show ?thesis
      proof (cases "extract_page resp")
        case (Inl e)
        with within Inr have "parse s resp = (s3, [], Some e)"
          by (simp add: parse_def Let_def)
        with p have eq: "s' = s3" "out' = []" by simp_all
        have "frontier_inv seeds s' q = frontier_inv seeds s q"
          by (rule frontier_inv_cong) (simp_all add: eq s3)
        with inv eq(2) show ?thesis
          by simp
      next
        case c: (Inr c)
        let ?s4 = "collect_data s3 c"
        obtain s5 t out e where f:
          "follow_links (current_depth resp) (r_anchors resp) (?s4, tally0, []) = ((s5, t, out), e)"
          by (rule follow_links_result)
        with within Inr c have "parse s resp = (s5, out, e)"
          by (simp add: parse_def Let_def)
        with p have eq: "s' = s5" "out' = out" by simp_all
        have "urls_scraped ?s4 = urls_scraped s" "urls_found ?s4 = urls_found s"
          by (simp_all add: collect_data_def s3)
        then have "frontier_inv seeds ?s4 q = frontier_inv seeds s q"
          by (rule frontier_inv_cong)
        with inv have "frontier_inv seeds ?s4 (q @ [])"
          by simp
        from follow_links_inv [OF f this] show ?thesis
          by (simp add: eq)
      qed
    qed
  qed
qed

lemma reachable_inv:
  assumes "reachable s0 sq" and "urls_scraped s0 \<subseteq> urls_found s0" and "finite (urls_found s0)"
  shows "frontier_inv (urls_scraped s0) (fst sq) (snd sq)"
  using assms
proof (induction rule: reachable.induct)
  case start
  then show ?case by (simp add: frontier_inv_def)
next
  case (page s q resp s' out err)
  from page.IH [OF page.prems] have "frontier_inv (urls_scraped s0) s q"
    by simp
  from parse_inv [OF page.hyps(2) this] show ?case
    by simp
next
  case (link s q d full_url t s' t' out)
  from link.IH [OF link.prems] have "frontier_inv (urls_scraped s0) s (q @ [])"
    by simp
  from follow_link_inv [OF link.hyps(2) this] show ?case
    by simp
qed

lemma spider_init_frontier:
  "urls_scraped (spider_init a b c d) = set (map spider_normalize_url (start_urls (spider_init a b c d)))
   \<and> urls_found (spider_init a b c d) = urls_scraped (spider_init a b c d)"
  by (simp add: spider_init_def Let_def)

text \<open>
  Claim C5. In every state a crawl reaches from the initial state of the spider, the
  scraped set is a subset of the discovered set, both are finite, and so the scraped set
  is no larger. The scraped set is the normalised seeds together with the normalised
  URLs of the requests issued so far; no two requests have the same normalised URL, and
  none has that of a seed: a URL enters the scraped set once.
\<close>

theorem frontier_invariant:
  assumes "reachable (spider_init a b c d) (s, q)"
  shows "urls_scraped s \<subseteq> urls_found s
       \<and> finite (urls_found s)
       \<and> card (urls_scraped s) \<le> card (urls_found s)
       \<and> urls_scraped s =
           set (map spider_normalize_url (start_urls (spider_init a b c d)))
             \<union> set (map (spider_normalize_url \<circ> req_url) q)
       \<and> distinct (map (spider_normalize_url \<circ> req_url) q)
       \<and> set (map spider_normalize_url (start_urls (spider_init a b c d)))
             \<inter> set (map (spider_normalize_url \<circ> req_url) q) = {}"
proof -
  let ?s0 = "spider_init a b c d"
  have s0: "urls_scraped ?s0 = set (map spider_normalize_url (start_urls ?s0))"
    using spider_init_frontier by blast
  have "urls_scraped ?s0 \<subseteq> urls_found ?s0" "finite (urls_found ?s0)"
    by (simp_all add: spider_init_frontier)
  from reachable_inv [OF assms this] have "frontier_inv (urls_scraped ?s0) s q"
    by simp
  then have inv:
    "urls_scraped s = urls_scraped ?s0 \<union> set (map (spider_normalize_url \<circ> req_url) q)"
    "distinct (map (spider_normalize_url \<circ> req_url) q)"
    "urls_scraped ?s0 \<inter> set (map (spider_normalize_url \<circ> req_url) q) = {}"
    "urls_scraped s \<subseteq> urls_found s"
    "finite (urls_found s)"
    unfolding frontier_inv_def by blast+
  from inv(5,4) have "card (urls_scraped s) \<le> card (urls_found s)"
    by (rule card_mono)
  with inv show ?thesis
    unfolding s0 by blast
qed

lemma crawl_reachable:
  "reachable s0 (s, q) \<Longrightarrow> crawl s resps = (s', out) \<Longrightarrow> reachable s0 (s', q @ out)"
proof (induction resps arbitrary: s q out)
  case Nil
  then show ?case by simp
next
  case (Cons r resps)
  obtain s1 out1 err where p: "parse s r = (s1, out1, err)"
    by (cases "parse s r")
  obtain s2 out2 where c: "crawl s1 resps = (s2, out2)"
    by (cases "crawl s1 resps")
  from Cons.prems(2) p c have eq: "s2 = s'" "out = out1 @ out2"
    by simp_all
  from reachable.page [OF Cons.prems(1) p] have "reachable s0 (s1, q @ out1)" .
  from Cons.IH [OF this c [unfolded eq(1)]] show ?case
    by (simp add: eq)
qed


theorem frontier_invariant_witness:
  "reachable example_spider
     (fst (parse example_spider
        (example_page ''https://maxroll.gg/d4/getting-started/first-steps'' 0
           [''https://maxroll.gg/d4/getting-started/a'',
            ''https://maxroll.gg/d4/getting-started/a#top'',
            ''https://maxroll.gg/d4/getting-started/a'',
            ''https://maxroll.gg/poe/x'',
            ''https://maxroll.gg/d4/getting-started/first-steps''])),
      fst (snd (parse example_spider
        (example_page ''https://maxroll.gg/d4/getting-started/first-steps'' 0
           [''https://maxroll.gg/d4/getting-started/a'',
            ''https://maxroll.gg/d4/getting-started/a#top'',
            ''https://maxroll.gg/d4/getting-started/a'',
            ''https://maxroll.gg/poe/x'',
            ''https://maxroll.gg/d4/getting-started/first-steps'']))))
   \<and> fst (snd (parse example_spider
        (example_page ''https://maxroll.gg/d4/getting-started/first-steps'' 0
           [''https://maxroll.gg/d4/getting-started/a'',
            ''https://maxroll.gg/d4/getting-started/a#top'',
            ''https://maxroll.gg/d4/getting-started/a'',
            ''https://maxroll.gg/poe/x'',
            ''https://maxroll.gg/d4/getting-started/first-steps''])))
       = [\<lparr>req_url = ''https://maxroll.gg/d4/getting-started/a'', req_depth = 1\<rparr>]
   \<and> urls_scraped (fst (parse example_spider
        (example_page ''https://maxroll.gg/d4/getting-started/first-steps'' 0
           [''https://maxroll.gg/d4/getting-started/a'',
            ''https://maxroll.gg/d4/getting-started/a#top'',
            ''https://maxroll.gg/d4/getting-started/a'',
            ''https://maxroll.gg/poe/x'',
            ''https://maxroll.gg/d4/getting-started/first-steps''])))
       \<subseteq> urls_found (fst (parse example_spider
        (example_page ''https://maxroll.gg/d4/getting-started/first-steps'' 0
           [''https://maxroll.gg/d4/getting-started/a'',
            ''https://maxroll.gg/d4/getting-started/a#top'',
            ''https://maxroll.gg/d4/getting-started/a'',
            ''https://maxroll.gg/poe/x'',
            ''https://maxroll.gg/d4/getting-started/first-steps''])))"
proof -
  let ?P = "parse example_spider
        (example_page ''https://maxroll.gg/d4/getting-started/first-steps'' 0
           [''https://maxroll.gg/d4/getting-started/a'',
            ''https://maxroll.gg/d4/getting-started/a#top'',
            ''https://maxroll.gg/d4/getting-started/a'',
            ''https://maxroll.gg/poe/x'',
            ''https://maxroll.gg/d4/getting-started/first-steps''])"
  have p: "?P = (fst ?P, fst (snd ?P), snd (snd ?P))"
    by simp
  have "reachable example_spider (fst ?P, [] @ fst (snd ?P))"
    by (rule reachable.page [OF reachable.start p])
  then have r: "reachable example_spider (fst ?P, fst (snd ?P))"
    by simp
  have out: "fst (snd ?P) = [\<lparr>req_url = ''https://maxroll.gg/d4/getting-started/a'', req_depth = 1\<rparr>]"
    by code_simp
  have sub: "urls_scraped (fst ?P) \<subseteq> urls_found (fst ?P)"
    by (rule conjunct1 [OF frontier_invariant
          [of "Some ''https://maxroll.gg/d4/getting-started/first-steps''" "Some 2" "Some 1"
              "Some 3", folded example_spider_def, OF r]])
  show ?thesis
    by (rule conjI [OF r conjI [OF out sub]])
qed


section \<open>The scope filter\<close>

lemma str_split_nonempty: "str_split c s \<noteq> []"
  by (induction s) (auto split: list.splits)

lemma str_split_no_sep: "p \<in> set (str_split c s) \<Longrightarrow> c \<notin> set p"
proof (induction s arbitrary: p)
  case Nil
  then show ?case by simp
next
  case (Cons x s)
  show ?case
  proof (cases "x = c")
    case True
    with Cons show ?thesis by auto
  next
    case False
    obtain q qs where sp: "str_split c s = q # qs"
      using str_split_nonempty [of c s] by (cases "str_split c s") auto
    with False Cons.prems have "p = x # q \<or> p \<in> set qs"
      by simp
    with False Cons.IH sp show ?thesis by auto
  qed
qed

lemma path_parts_segment: "p \<in> set (path_parts u) \<Longrightarrow> p \<noteq> [] \<and> CHR ''/'' \<notin> set p"
  by (auto simp: path_parts_def dest: str_split_no_sep)

lemma seg_prefix:
  "CHR ''/'' \<notin> set x \<Longrightarrow> CHR ''/'' \<notin> set y \<Longrightarrow>
     prefix (x @ CHR ''/'' # a) (y @ CHR ''/'' # b) = (x = y \<and> prefix a b)"
proof (induction x arbitrary: y)
  case Nil
  then show ?case by (cases y) auto
next
  case (Cons c x)
  then show ?case by (cases y) auto
qed

lemma enc_prefix:
  assumes "\<forall>p\<in>set xs. CHR ''/'' \<notin> set p" and "\<forall>p\<in>set ys. CHR ''/'' \<notin> set p"
  shows "prefix (concat (map (\<lambda>p. p @ ''/'') xs)) (concat (map (\<lambda>p. p @ ''/'') ys)) = prefix xs ys"
  using assms
proof (induction xs arbitrary: ys)
  case Nil
  then show ?case by simp
next
  case (Cons x xs)
  show ?case
  proof (cases ys)
    case Nil
    then show ?thesis by simp
  next
    case (Cons y ys')
    with Cons.prems Cons.IH [of ys'] show ?thesis
      by (simp add: seg_prefix)
  qed
qed

lemma join_enc:
  "xs \<noteq> [] \<Longrightarrow> str_join ''/'' xs @ ''/'' = concat (map (\<lambda>p. p @ ''/'') xs)"
  by (induction "''/''" xs rule: str_join.induct) auto

lemma join_eq_iff:
  assumes "\<forall>p\<in>set xs. CHR ''/'' \<notin> set p" and "\<forall>p\<in>set ys. CHR ''/'' \<notin> set p"
    and "xs \<noteq> []" and "ys \<noteq> []"
  shows "(str_join ''/'' xs = str_join ''/'' ys) = (xs = ys)"
proof
  assume "str_join ''/'' xs = str_join ''/'' ys"
  then have "str_join ''/'' xs @ ''/'' = str_join ''/'' ys @ ''/''"
    by simp
  then have e: "concat (map (\<lambda>p. p @ ''/'') xs) = concat (map (\<lambda>p. p @ ''/'') ys)"
    by (simp only: join_enc [OF assms(3)] join_enc [OF assms(4)])
  then have "prefix xs ys" "prefix ys xs"
    using enc_prefix [OF assms(1,2)] enc_prefix [OF assms(2,1)] by simp_all
  then show "xs = ys"
    by (rule prefix_order.antisym)
qed simp

lemma startswith_join:
  assumes "\<forall>p\<in>set xs. CHR ''/'' \<notin> set p" and "\<forall>p\<in>set ys. CHR ''/'' \<notin> set p"
    and "xs \<noteq> []" and "ys \<noteq> []"
  shows "(startswith (str_join ''/'' ys) (str_join ''/'' xs @ ''/'')
          \<or> str_join ''/'' xs = str_join ''/'' ys) = prefix xs ys"
proof -
  have "prefix xs ys
      = prefix (str_join ''/'' xs @ ''/'') (str_join ''/'' ys @ ''/'')"
    by (simp only: join_enc [OF assms(3)] join_enc [OF assms(4)] enc_prefix [OF assms(1,2)])
  also have "\<dots> = (str_join ''/'' xs @ ''/'' = str_join ''/'' ys @ ''/''
       \<or> prefix (str_join ''/'' xs @ ''/'') (str_join ''/'' ys))"
    by (simp only: prefix_snoc)
  finally show ?thesis
    by (auto simp: startswith_def)
qed

lemma join_not_empty:
  "xs \<noteq> [] \<Longrightarrow> \<forall>p\<in>set xs. p \<noteq> [] \<Longrightarrow> str_join ''/'' xs \<noteq> [] \<and> hd (str_join ''/'' xs) = hd (hd xs)"
  by (induction "''/''" xs rule: str_join.induct) auto

lemma get_path_filter_rule:
  assumes "2 \<le> fd" and "get_path_filter fd seed = Some rule"
  shows "rule = str_join ''/'' (take (nat fd) (path_parts seed)) \<and> path_parts seed \<noteq> []"
proof (cases "fd \<le> int (length (path_parts seed))")
  case True
  with assms show ?thesis
    by (auto simp: get_path_filter_def slice_to_def Let_def)
next
  case False
  then have "take (nat fd) (path_parts seed) = path_parts seed"
    by simp
  with False assms show ?thesis
    by (auto simp: get_path_filter_def Let_def split: if_splits)
qed

lemma matches_filter_unfold:
  assumes "2 \<le> fd" and "rule \<noteq> []"
  shows "matches_filter (Some rule) fd url =
     (if fd \<le> int (length (path_parts url))
      then str_join ''/'' (take (nat fd) (path_parts url)) = rule
      else (startswith rule (str_join ''/'' (path_parts url) @ ''/'')
            \<or> str_join ''/'' (path_parts url) = rule))"
  using assms by (simp add: matches_filter_def slice_to_def Let_def)

text \<open>
  Claim C4, as amended. Let the filter depth be at least two and let the seed give a
  rule, which is then the first \<open>depth\<close> path segments of the seed joined by a slash
  (all of them when the seed has fewer). A candidate URL is in scope exactly when it has
  at least \<open>depth\<close> segments and the first \<open>depth\<close> of them, joined by a slash, are
  the rule, or it has fewer segments, at least one, and they are a segment-wise prefix of
  the rule's segments. In particular a candidate whose first \<open>depth\<close> segments, joined,
  are not the rule and whose segments are not a prefix of the rule's is out of scope.
\<close>

theorem scope_rule_depth_ge_2:
  assumes "2 \<le> fd" and "get_path_filter fd seed = Some rule"
  shows "matches_filter (Some rule) fd url =
      ((fd \<le> int (length (path_parts url))
          \<and> str_join ''/'' (take (nat fd) (path_parts url)) = rule)
       \<or> (int (length (path_parts url)) < fd \<and> path_parts url \<noteq> []
          \<and> prefix (path_parts url) (take (nat fd) (path_parts seed))))
   \<and> (str_join ''/'' (take (nat fd) (path_parts url)) \<noteq> rule
        \<and> \<not> prefix (path_parts url) (take (nat fd) (path_parts seed))
        \<longrightarrow> \<not> matches_filter (Some rule) fd url)
   \<and> rule = str_join ''/'' (take (nat fd) (path_parts seed))"
proof -
  let ?U = "path_parts url"
  let ?R = "take (nat fd) (path_parts seed)"
  from get_path_filter_rule [OF assms] have rule: "rule = str_join ''/'' ?R"
    and seed: "path_parts seed \<noteq> []"
    by simp_all
  from seed assms(1) have R: "?R \<noteq> []"
    by (cases "path_parts seed") (simp_all add: take_Cons')
  have segR: "\<forall>p\<in>set ?R. p \<noteq> [] \<and> CHR ''/'' \<notin> set p"
    using path_parts_segment by (blast dest: in_set_takeD)
  have segU: "\<forall>p\<in>set ?U. p \<noteq> [] \<and> CHR ''/'' \<notin> set p"
    using path_parts_segment by blast
  from join_not_empty [OF R] segR have ne: "rule \<noteq> []" and hd: "hd rule = hd (hd ?R)"
    by (simp_all add: rule)
  from R segR have "hd (hd ?R) \<noteq> CHR ''/''"
    by (cases ?R) (auto simp: neq_Nil_conv)
  with ne hd have slash: "\<not> startswith rule ''/''"
    by (cases rule) (auto simp: startswith_def)
  have main: "matches_filter (Some rule) fd url =
      ((fd \<le> int (length ?U) \<and> str_join ''/'' (take (nat fd) ?U) = rule)
       \<or> (int (length ?U) < fd \<and> ?U \<noteq> [] \<and> prefix ?U ?R))"
  proof (cases "fd \<le> int (length ?U)")
    case True
    then show ?thesis
      by (simp add: matches_filter_unfold [OF assms(1) ne])
  next
    case False
    show ?thesis
    proof (cases "?U = []")
      case True
      with False slash ne show ?thesis
        by (simp add: matches_filter_unfold [OF assms(1) ne])
    next
      case U: False
      from segU segR have "\<forall>p\<in>set ?U. CHR ''/'' \<notin> set p" "\<forall>p\<in>set ?R. CHR ''/'' \<notin> set p"
        by blast+
      then have "(startswith rule (str_join ''/'' ?U @ ''/'') \<or> str_join ''/'' ?U = rule)
          = prefix ?U ?R"
        unfolding rule by (rule startswith_join [OF _ _ U R])
      with False U show ?thesis
        by (simp add: matches_filter_unfold [OF assms(1) ne])
    qed
  qed
  from main rule show ?thesis
    by blast
qed

theorem scope_rule_depth_ge_2_witness:
  "matches_filter (Some ''d4/getting-started'') 2 ''https://maxroll.gg/d4''
   \<and> matches_filter (Some ''d4/getting-started'') 2 ''https://maxroll.gg/d4/getting-started/gear''
   \<and> \<not> matches_filter (Some ''d4/getting-started'') 2 ''https://maxroll.gg/d4/build-guides/gear''
   \<and> ''d4/getting-started''
        = str_join ''/'' (take (nat 2)
            (path_parts ''https://maxroll.gg/d4/getting-started/first-steps''))"
proof -
  let ?seed = "''https://maxroll.gg/d4/getting-started/first-steps''"
  have d: "(2::int) \<le> 2"
    by simp
  have g: "get_path_filter 2 ?seed = Some ''d4/getting-started''"
    by code_simp
  note t = scope_rule_depth_ge_2 [OF d g]
  have a: "int (length (path_parts ''https://maxroll.gg/d4'')) < 2
      \<and> path_parts ''https://maxroll.gg/d4'' \<noteq> []
      \<and> prefix (path_parts ''https://maxroll.gg/d4'') (take (nat 2) (path_parts ?seed))"
    by code_simp
  have b: "2 \<le> int (length (path_parts ''https://maxroll.gg/d4/getting-started/gear''))
      \<and> str_join ''/'' (take (nat 2) (path_parts ''https://maxroll.gg/d4/getting-started/gear''))
          = ''d4/getting-started''"
    by code_simp
  have c: "str_join ''/'' (take (nat 2) (path_parts ''https://maxroll.gg/d4/build-guides/gear''))
          \<noteq> ''d4/getting-started''
      \<and> \<not> prefix (path_parts ''https://maxroll.gg/d4/build-guides/gear'')
            (take (nat 2) (path_parts ?seed))"
    by code_simp
  have 1: "matches_filter (Some ''d4/getting-started'') 2 ''https://maxroll.gg/d4''"
    using a conjunct1 [OF t [of "''https://maxroll.gg/d4''"]] by (rule_tac iffD2) auto
  have 2: "matches_filter (Some ''d4/getting-started'') 2 ''https://maxroll.gg/d4/getting-started/gear''"
    using b conjunct1 [OF t [of "''https://maxroll.gg/d4/getting-started/gear''"]]
    by (rule_tac iffD2) auto
  have 3: "\<not> matches_filter (Some ''d4/getting-started'') 2 ''https://maxroll.gg/d4/build-guides/gear''"
    by (rule mp [OF conjunct1 [OF conjunct2 [OF t [of "''https://maxroll.gg/d4/build-guides/gear''"]]] c])
  have 4: "''d4/getting-started'' = str_join ''/'' (take (nat 2) (path_parts ?seed))"
    by (rule conjunct2 [OF conjunct2 [OF t [of "[]"]]])
  show ?thesis
    by (rule conjI [OF 1 conjI [OF 2 conjI [OF 3 4]]])
qed

text \<open>
  The claim as stated admits a candidate with no path segment at all, the empty list
  being a prefix of every rule; the spider filters the root page out.
\<close>

theorem scope_rule_root_counterexample:
  "get_path_filter 2 ''https://maxroll.gg/d4/getting-started/first-steps''
      = Some ''d4/getting-started''
   \<and> take 2 (path_parts ''https://maxroll.gg/d4/getting-started/first-steps'')
      = [''d4'', ''getting-started'']
   \<and> path_parts ''https://maxroll.gg/'' = []
   \<and> in_scope_spec 2 [''d4'', ''getting-started''] (path_parts ''https://maxroll.gg/'')
   \<and> \<not> matches_filter (Some ''d4/getting-started'') 2 ''https://maxroll.gg/''"
  by code_simp


section \<open>Properties of the deduplication script\<close>

lemma group_append_keys:
  "map fst (group_append G k v) = (if k \<in> fst ` set G then map fst G else map fst G @ [k])"
  by (induction G k v rule: group_append.induct) auto

lemma group_append_fresh: "k \<notin> fst ` set G \<Longrightarrow> group_append G k v = G @ [(k, [v])]"
  by (induction G k v rule: group_append.induct) auto

lemma group_append_map_of:
  "map_of (group_append G k v) k' =
     (if k' = k then Some ((case map_of G k of None \<Rightarrow> [] | Some vs \<Rightarrow> vs) @ [v])
      else map_of G k')"
  by (induction G k v rule: group_append.induct) auto

lemma url_groups_Nil: "url_groups [] = []"
  by (simp add: url_groups_def)

lemma url_groups_snoc:
  "url_groups (data @ [it]) =
     (case item_url it of None \<Rightarrow> url_groups data
      | Some u \<Rightarrow> group_append (url_groups data) (normalize_url u) it)"
  by (simp add: url_groups_def split: option.splits)

lemma url_groups_distinct: "distinct (map fst (url_groups data))"
proof (induction data rule: rev_induct)
  case Nil
  then show ?case by (simp add: url_groups_Nil)
next
  case (snoc it data)
  then show ?case
    by (auto simp: url_groups_snoc group_append_keys split: option.splits)
qed

lemma url_key_Some: "item_url it = Some u \<Longrightarrow> url_key it = normalize_url u"
  by (simp add: url_key_def get_url_def)

lemma url_groups_map_of:
  "map_of (url_groups data) k =
     (if filter (\<lambda>x. item_url x \<noteq> None \<and> url_key x = k) data = [] then None
      else Some (filter (\<lambda>x. item_url x \<noteq> None \<and> url_key x = k) data))"
proof (induction data rule: rev_induct)
  case Nil
  then show ?case by (simp add: url_groups_Nil)
next
  case (snoc it data)
  show ?case
  proof (cases "item_url it")
    case None
    with snoc show ?thesis
      by (simp add: url_groups_snoc del: not_None_eq)
  next
    case (Some u)
    with snoc show ?thesis
      by (auto simp: url_groups_snoc group_append_map_of url_key_Some simp del: not_None_eq)
  qed
qed

lemma url_groups_member:
  "((k, items) \<in> set (url_groups data)) =
     (items \<noteq> [] \<and> items = filter (\<lambda>x. item_url x \<noteq> None \<and> url_key x = k) data)"
proof -
  have "((k, items) \<in> set (url_groups data)) = (map_of (url_groups data) k = Some items)"
    using url_groups_distinct by simp
  then show ?thesis
    by (auto simp: url_groups_map_of simp del: not_None_eq)
qed

lemma url_groups_unique:
  assumes "\<forall>it\<in>set data. item_url it \<noteq> None" and "distinct (map url_key data)"
  shows "url_groups data = map (\<lambda>it. (url_key it, [it])) data"
  using assms
proof (induction data rule: rev_induct)
  case Nil
  then show ?case by (simp add: url_groups_Nil)
next
  case (snoc it data)
  from snoc.prems obtain u where u: "item_url it = Some u"
    by auto
  from snoc have g: "url_groups data = map (\<lambda>it. (url_key it, [it])) data"
    by simp
  have "url_key it \<notin> fst ` set (url_groups data)"
    using snoc.prems(2) by (auto simp: g)
  then show ?case
    by (simp add: url_groups_snoc u url_key_Some [OF u, symmetric] group_append_fresh g)
qed

lemma url_groups_keyed:
  assumes "(k, items) \<in> set (url_groups data)"
  shows "items \<noteq> [] \<and> (\<forall>x\<in>set items. item_url x \<noteq> None \<and> url_key x = k)"
  using assms by (auto simp: url_groups_member simp del: not_None_eq)

lemma max_from_in: "max_from key b xs \<in> set (b # xs)"
  by (induction xs arbitrary: b) auto


lemma process_group_Cons:
  "process_group md5 (seen, acc) (k, x # xs) =
     (if digest md5 (max_from content_score x xs) \<notin> seen
      then Inr (insert (digest md5 (max_from content_score x xs)) seen,
                acc @ [max_from content_score x xs])
      else Inr (seen, acc))"
  by (cases xs) (simp_all add: process_group_def py_max_def digest_def Let_def)

lemma process_groups_pipeline:
  assumes "\<forall>(k, items)\<in>set G. items \<noteq> []"
  shows "process_groups md5 (seen, acc) G =
     Inr (seen \<union> set (map (digest md5) (survivors G)),
          acc @ digest_filter md5 seen (survivors G))"
  using assms
proof (induction G arbitrary: seen acc)
  case Nil
  then show ?case by (simp add: survivors_def)
next
  case (Cons g G)
  obtain k items where g: "g = (k, items)" by (cases g)
  with Cons.prems obtain x xs where items: "items = x # xs"
    by (cases items) auto
  have sv: "survivors ((k, x # xs) # G) = max_from content_score x xs # survivors G"
    by (simp add: survivors_def)
  from Cons.prems have G: "\<forall>(k, items)\<in>set G. items \<noteq> []" by simp
  show ?case
  proof (cases "digest md5 (max_from content_score x xs) \<in> seen")
    case True
    then show ?thesis
      using Cons.IH [OF G, of seen acc]
      by (auto simp: g items process_group_Cons sv)
  next
    case False
    then show ?thesis
      using Cons.IH [OF G, of "insert (digest md5 (max_from content_score x xs)) seen"
          "acc @ [max_from content_score x xs]"]
      by (auto simp: g items process_group_Cons sv)
  qed
qed

lemma deduplicate_data_pipeline:
  "deduplicate_data md5 verbose data =
     (if verbose \<and> data = [] then Inl ZeroDivisionError
      else Inr (digest_filter md5 {} (survivors (url_groups data))))"
proof -
  have "\<forall>(k, items)\<in>set (url_groups data). items \<noteq> []"
    using url_groups_keyed by blast
  from process_groups_pipeline [OF this, of md5 "{}" "[]"] show ?thesis
    by (simp add: deduplicate_data_def)
qed

lemma digest_filter_subset: "set (digest_filter md5 seen xs) \<subseteq> set xs"
  by (induction xs arbitrary: seen) auto

lemma digest_filter_distinct_key:
  "distinct (map f xs) \<Longrightarrow> distinct (map f (digest_filter md5 seen xs))"
proof (induction xs arbitrary: seen)
  case Nil
  then show ?case by simp
next
  case (Cons b bs)
  have "set (digest_filter md5 (insert (digest md5 b) seen) bs) \<subseteq> set bs"
    by (rule digest_filter_subset)
  with Cons show ?case by auto
qed

lemma digest_filter_fresh:
  "digest md5 ` set (digest_filter md5 seen xs) \<inter> seen = {}"
proof (induction xs arbitrary: seen)
  case Nil
  then show ?case by simp
next
  case (Cons b bs)
  from Cons [of seen] Cons [of "insert (digest md5 b) seen"] show ?case
    by auto
qed

lemma digest_filter_distinct_digest:
  "distinct (map (digest md5) (digest_filter md5 seen xs))"
proof (induction xs arbitrary: seen)
  case Nil
  then show ?case by simp
next
  case (Cons b bs)
  from digest_filter_fresh [of md5 "insert (digest md5 b) seen" bs]
  have "digest md5 b \<notin> digest md5 ` set (digest_filter md5 (insert (digest md5 b) seen) bs)"
    by auto
  with Cons show ?case by simp
qed

lemma digest_filter_id:
  "distinct (map (digest md5) xs) \<Longrightarrow> digest md5 ` set xs \<inter> seen = {} \<Longrightarrow>
     digest_filter md5 seen xs = xs"
proof (induction xs arbitrary: seen)
  case Nil
  then show ?case by simp
next
  case (Cons b bs)
  from Cons.prems have "digest md5 b \<notin> seen" by auto
  moreover from Cons.prems have "digest_filter md5 (insert (digest md5 b) seen) bs = bs"
    by (intro Cons.IH) auto
  ultimately show ?case by simp
qed


lemma survivors_singletons: "survivors (map (\<lambda>it. (url_key it, [it])) data) = data"
  by (induction data) (simp_all add: survivors_def)

lemma survivors_member:
  "(b \<in> set (survivors G)) =
     (\<exists>k x xs. (k, x # xs) \<in> set G \<and> b = max_from content_score x xs)"
proof (induction G)
  case Nil
  then show ?case by (simp add: survivors_def)
next
  case (Cons g G)
  obtain k items where g: "g = (k, items)" by (cases g)
  have "survivors (g # G) = (case items of [] \<Rightarrow> [] | x # xs \<Rightarrow> [max_from content_score x xs])
          @ survivors G"
    by (simp add: survivors_def g)
  with Cons show ?case
    by (cases items) (auto simp: g)
qed

lemma survivors_keys:
  assumes "\<forall>(k, items)\<in>set G. items \<noteq> [] \<and> (\<forall>x\<in>set items. url_key x = k)"
  shows "map url_key (survivors G) = map fst G"
  using assms
proof (induction G)
  case Nil
  then show ?case by (simp add: survivors_def)
next
  case (Cons g G)
  obtain k items where g: "g = (k, items)" by (cases g)
  with Cons.prems obtain x xs where items: "items = x # xs"
    by (cases items) auto
  have sv: "survivors ((k, x # xs) # G) = max_from content_score x xs # survivors G"
    by (simp add: survivors_def)
  have "max_from content_score x xs \<in> set (x # xs)"
    by (rule max_from_in)
  with Cons.prems have "url_key (max_from content_score x xs) = k"
    unfolding g items by auto
  moreover from Cons have "map url_key (survivors G) = map fst G"
    by simp
  ultimately show ?case
    by (simp add: g items sv)
qed

lemma survivors_url_groups_keys:
  "map url_key (survivors (url_groups data)) = map fst (url_groups data)"
  by (rule survivors_keys) (use url_groups_keyed in blast)

lemma survivors_url_groups_have_url:
  "b \<in> set (survivors (url_groups data)) \<Longrightarrow> item_url b \<noteq> None"
proof -
  assume "b \<in> set (survivors (url_groups data))"
  then obtain k x xs where m: "(k, x # xs) \<in> set (url_groups data)"
    and b: "b = max_from content_score x xs"
    unfolding survivors_member by blast
  have "b \<in> set (x # xs)"
    unfolding b by (rule max_from_in)
  with url_groups_keyed [OF m] show ?thesis
    by blast
qed

lemma pipeline_output:
  fixes md5 data
  defines "out \<equiv> digest_filter md5 {} (survivors (url_groups data))"
  shows "distinct (map url_key out)" and "distinct (map (digest md5) out)"
    and "\<forall>it\<in>set out. item_url it \<noteq> None"
proof -
  have "distinct (map url_key (survivors (url_groups data)))"
    by (simp only: survivors_url_groups_keys url_groups_distinct)
  then show "distinct (map url_key out)"
    unfolding out_def by (rule digest_filter_distinct_key)
  show "distinct (map (digest md5) out)"
    unfolding out_def by (rule digest_filter_distinct_digest)
  show "\<forall>it\<in>set out. item_url it \<noteq> None"
    unfolding out_def
    using digest_filter_subset survivors_url_groups_have_url by blast
qed

lemma pipeline_fixpoint:
  assumes "distinct (map url_key xs)" and "distinct (map (digest md5) xs)"
    and "\<forall>it\<in>set xs. item_url it \<noteq> None"
  shows "digest_filter md5 {} (survivors (url_groups xs)) = xs"
proof -
  have "url_groups xs = map (\<lambda>it. (url_key it, [it])) xs"
    using assms(3,1) by (rule url_groups_unique)
  then have "survivors (url_groups xs) = xs"
    by (simp only: survivors_singletons)
  moreover have "digest_filter md5 {} xs = xs"
    using assms(2) by (rule digest_filter_id) simp
  ultimately show ?thesis
    by simp
qed

lemma deduplicate_data_idempotent:
  assumes "deduplicate_data md5 verbose data = Inr out" and "verbose \<longrightarrow> out \<noteq> []"
  shows "deduplicate_data md5 verbose out = Inr out"
proof -
  from assms(1) have out: "out = digest_filter md5 {} (survivors (url_groups data))"
    by (simp add: deduplicate_data_pipeline split: if_splits)
  have "digest_filter md5 {} (survivors (url_groups out)) = out"
    unfolding out by (rule pipeline_fixpoint) (rule pipeline_output)+
  with assms(2) show ?thesis
    by (simp add: deduplicate_data_pipeline)
qed






lemma content_str_cong:
  assumes "c_headings c1 = c_headings c2"
    and "map_option (map (take 100)) (c_paragraphs c1) = map_option (map (take 100)) (c_paragraphs c2)"
    and "c_title c1 = c_title c2"
  shows "content_str c1 = content_str c2"
proof -
  have fold: "foldl (\<lambda>s para. s @ take 100 para @ newline) s0 ps
      = s0 @ concat (map (\<lambda>p. p @ newline) (map (take 100) ps))" for s0 ps
    by (induction ps arbitrary: s0) simp_all
  from assms show ?thesis
    by (cases "c_paragraphs c1"; cases "c_paragraphs c2")
       (simp_all add: content_str_def fold Let_def)
qed











text \<open>
  Claim C9 fails on the code where the output is empty. With \<^verbatim>\<open>verbose\<close> set, the
  default, the script ends with a percentage of \<^verbatim>\<open>len(data)\<close>. A collection whose only
  record has no URL gives the empty output, and the script run on that output raises
  \<^verbatim>\<open>ZeroDivisionError\<close> instead of returning it. Everywhere else the output is
  reproduced unchanged, which is lemma \<open>deduplicate_data_idempotent\<close>.
\<close>

theorem idempotence_fails_on_empty_output:
  "deduplicate_data md5 True
       [\<lparr>item_url = None, item_title = Some ''Untitled'', item_content = None\<rparr>] = Inr []
   \<and> deduplicate_data md5 True [] = Inl ZeroDivisionError"
  by (simp add: deduplicate_data_pipeline url_groups_def survivors_def)

text \<open>
  Claim C3 fails on the code for the title. The digest is taken of the content
  dictionary, and the title of a record is stored beside that dictionary, not in it: two
  records that differ only in their title have the same digest, and of two pages with
  different URLs and titles and the same headings and paragraphs the script keeps one.
  Records that agree on headings, paragraph prefixes and title do get equal digests,
  which is lemma \<open>content_str_cong\<close>.
\<close>

theorem title_left_out_of_digest:
  "digest md5 (page_record u t1 c) = digest md5 (page_record u t2 c)
   \<and> deduplicate_data (\<lambda>s. s) False
       [page_record ''https://maxroll.gg/d4/barbarian'' ''Barbarian Guide'' guide_content,
        page_record ''https://maxroll.gg/d4/sorcerer'' ''Sorcerer Guide'' guide_content]
     = Inr [page_record ''https://maxroll.gg/d4/barbarian'' ''Barbarian Guide'' guide_content]"
proof -
  have "digest md5 (page_record u t1 c) = digest md5 (page_record u t2 c)"
    by (simp add: digest_def get_content_def page_record_def)
  moreover have "deduplicate_data (\<lambda>s. s) False
       [page_record ''https://maxroll.gg/d4/barbarian'' ''Barbarian Guide'' guide_content,
        page_record ''https://maxroll.gg/d4/sorcerer'' ''Sorcerer Guide'' guide_content]
     = Inr [page_record ''https://maxroll.gg/d4/barbarian'' ''Barbarian Guide'' guide_content]"
    by code_simp
  ultimately show ?thesis
    by (rule conjI)
qed

end
